theory Spec2Isabelle
  imports Complex_Main "HOL-Library.Word" "HOL-Library.Multiset"
begin

unbundle bit_operations_syntax

section \<open>Data model (fplib.h)\<close>

text \<open>
  The fingerprint record and the union key of \<^verbatim>\<open>fplib.h\<close> on a 64-bit target:
  \<^verbatim>\<open>size_t\<close> is a 64-bit word, \<^verbatim>\<open>uint32_t\<close> and \<^verbatim>\<open>int32_t\<close> are 32-bit words (read
  with \<open>unat\<close> or \<open>sint\<close>), \<^verbatim>\<open>uint8_t r[348]\<close> and \<^verbatim>\<open>uint8_t dom[66]\<close> are byte lists
  and the flexible array \<^verbatim>\<open>cprint\<close> is a list of 32-bit words.  The field \<^verbatim>\<open>dom\<close>
  is called \<open>dom_fp\<close> here, and the fields of the union carry the prefix \<open>u_\<close>
  where the struct repeats a name of \<^verbatim>\<open>FPrint\<close>.

  \<^verbatim>\<open>float\<close> and \<^verbatim>\<open>double\<close> values are modelled as exact reals: rounding is not
  modelled, so every statement about a score below is a statement about the
  exact value of the expression the code evaluates.  The one exception is the
  song length gate of \<^verbatim>\<open>match_cpfm\<close>, where the conversion to \<^verbatim>\<open>float\<close> decides a
  branch: there the rounding is written out.
\<close>

definition R_SIZE :: nat where "R_SIZE = 348"
definition R_SIZE32 :: nat where "R_SIZE32 = R_SIZE * 1 div 4"
definition DOM_SIZE :: nat where "DOM_SIZE = 66"
definition DOM_LEN32 :: nat where "DOM_LEN32 = DOM_SIZE * 1 div 4"
definition DOM_END16 :: nat where "DOM_END16 = DOM_SIZE * 1 div 2 - 1"

record FPrint =
  cprint_len :: "64 word"
  songlen :: "32 word"
  bit_rate :: "32 word"
  num_errors :: "32 word"
  r :: "8 word list"
  dom_fp :: "8 word list"
  cprint :: "32 word list"

record FPrintUnion =
  u_cprint_len :: "64 word"
  min_songlen :: "32 word"
  u_bit_rate :: "32 word"
  max_songlen :: "32 word"
  u_r :: "8 word list"
  u_dom :: "8 word list"
  u_cprint :: "32 word list"

text \<open>
  A record is well formed when its arrays have the sizes the struct declares and
  the flexible array holds \<open>cprint_len\<close> codewords.  It is valid when moreover
  \<open>1 \<le> cprint_len < 2\<^sup>3\<^sup>1\<close>: records are allocated by \<^verbatim>\<open>new_fprint(int cprint_len)\<close>.
\<close>

definition wf_fprint :: "FPrint \<Rightarrow> bool" where
  "wf_fprint a \<longleftrightarrow>
     length (r a) = R_SIZE \<and> length (dom_fp a) = DOM_SIZE \<and>
     length (cprint a) = unat (cprint_len a)"

definition wf_union :: "FPrintUnion \<Rightarrow> bool" where
  "wf_union u \<longleftrightarrow>
     length (u_r u) = R_SIZE \<and> length (u_dom u) = DOM_SIZE \<and>
     length (u_cprint u) = unat (u_cprint_len u)"

definition valid_fprint :: "FPrint \<Rightarrow> bool" where
  "valid_fprint a \<longleftrightarrow> wf_fprint a \<and> 1 \<le> cprint_len a \<and> cprint_len a < 2 ^ 31"

definition valid_union :: "FPrintUnion \<Rightarrow> bool" where
  "valid_union u \<longleftrightarrow> wf_union u \<and> 1 \<le> u_cprint_len u \<and> u_cprint_len u < 2 ^ 31"

subsection \<open>Branch-free minimum and maximum\<close>

definition max_st :: "64 word \<Rightarrow> 64 word \<Rightarrow> 64 word" where
  "max_st x y = (((- (if y < x then 1 else 0)) AND (x XOR y)) XOR y)"

definition min_st :: "64 word \<Rightarrow> 64 word \<Rightarrow> 64 word" where
  "min_st x y = (((- (if y > x then 1 else 0)) AND (x XOR y)) XOR y)"

definition max_u32 :: "32 word \<Rightarrow> 32 word \<Rightarrow> 32 word" where
  "max_u32 x y = (((- (if y < x then 1 else 0)) AND (x XOR y)) XOR y)"

definition min_u32 :: "32 word \<Rightarrow> 32 word \<Rightarrow> 32 word" where
  "min_u32 x y = (((- (if y > x then 1 else 0)) AND (x XOR y)) XOR y)"

subsection \<open>Reading the byte arrays through word pointers\<close>

text \<open>
  The kernels cast \<^verbatim>\<open>r\<close> and \<^verbatim>\<open>dom\<close> to \<^verbatim>\<open>uint32_t *\<close> and \<^verbatim>\<open>uint16_t *\<close>.  On the
  little-endian targets the library is built for, word \<open>i\<close> of the cast is made
  of bytes \<open>4 i \<dots> 4 i + 3\<close>, lowest byte first.
\<close>

definition le32 :: "8 word \<Rightarrow> 8 word \<Rightarrow> 8 word \<Rightarrow> 8 word \<Rightarrow> 32 word" where
  "le32 b0 b1 b2 b3 =
     ucast b0 OR push_bit 8 (ucast b1) OR push_bit 16 (ucast b2) OR push_bit 24 (ucast b3)"

definition le16 :: "8 word \<Rightarrow> 8 word \<Rightarrow> 16 word" where
  "le16 b0 b1 = ucast b0 OR push_bit 8 (ucast b1)"

fun words32 :: "8 word list \<Rightarrow> 32 word list" where
  "words32 (b0 # b1 # b2 # b3 # bs) = le32 b0 b1 b2 b3 # words32 bs"
| "words32 _ = []"

fun bytes32 :: "32 word list \<Rightarrow> 8 word list" where
  "bytes32 [] = []"
| "bytes32 (w # ws) =
     ucast w # ucast (drop_bit 8 w) # ucast (drop_bit 16 w) # ucast (drop_bit 24 w) # bytes32 ws"

definition load16 :: "8 word list \<Rightarrow> nat \<Rightarrow> 16 word" where
  "load16 bs i = le16 (bs ! (2 * i)) (bs ! (2 * i + 1))"

definition bytes16 :: "16 word \<Rightarrow> 8 word list" where
  "bytes16 w = [ucast w, ucast (drop_bit 8 w)]"

section \<open>Bit operations (fplib.c)\<close>

definition pop32 :: "32 word \<Rightarrow> 32 word" where
  "pop32 x0 =
     (let x1 = x0 - (drop_bit 1 x0 AND 0x55555555);
          x2 = (x1 AND 0x33333333) + (drop_bit 2 x1 AND 0x33333333)
      in drop_bit 24 (((x2 + drop_bit 4 x2) AND 0x0F0F0F0F) * 0x01010101))"

text \<open>
  \<^verbatim>\<open>pop16\<close> stores its two intermediate values back into the 16-bit parameter;
  the returned expression is evaluated after integer promotion, in 32 bits, and
  is not cut back to 16 bits.
\<close>

definition pop16 :: "16 word \<Rightarrow> 32 word" where
  "pop16 x0 =
     (let x1 = x0 - (drop_bit 1 x0 AND 0x5555);
          x2 = (x1 AND 0x3333) + (drop_bit 2 x1 AND 0x3333);
          x = (ucast x2 :: 32 word)
      in drop_bit 8 (((x + drop_bit 4 x) AND 0x0F0F) * 0x0101))"

definition cmp_low_bit :: "32 word \<Rightarrow> 32 word \<Rightarrow> 32 word" where
  "cmp_low_bit x y = (if x AND (- x) = y AND (- y) then 1 else 0)"

section \<open>Chroma kernels\<close>

subsection \<open>match_chromab\<close>

text \<open>
  The four-way unrolled loop and the remainder loop of \<^verbatim>\<open>match_chromab\<close>.  Both
  advance the two pointers together, so one offset \<open>p\<close> stands for both; \<open>sm\<close> is
  the 32-bit accumulator.
\<close>

function chromab_loop :: "32 word list \<Rightarrow> 32 word list \<Rightarrow> nat \<Rightarrow> nat \<Rightarrow> nat \<Rightarrow> 32 word
    \<Rightarrow> nat \<times> 32 word" where
  "chromab_loop cp1 cp2 i end p sm =
     (if i < end then
        chromab_loop cp1 cp2 (i + 1) end (p + 4)
          (sm + cmp_low_bit (cp1 ! p) (cp2 ! p)
              + cmp_low_bit (cp1 ! (p + 1)) (cp2 ! (p + 1))
              + cmp_low_bit (cp1 ! (p + 2)) (cp2 ! (p + 2))
              + cmp_low_bit (cp1 ! (p + 3)) (cp2 ! (p + 3)))
      else (p, sm))"
  by pat_completeness auto
termination
  by (relation "measure (\<lambda>(cp1, cp2, i, end, p, sm). end - i)") auto

declare chromab_loop.simps [simp del]

fun chromab_rem :: "32 word list \<Rightarrow> 32 word list \<Rightarrow> nat \<Rightarrow> nat \<Rightarrow> 32 word \<Rightarrow> 32 word" where
  "chromab_rem cp1 cp2 0 p sm = sm"
| "chromab_rem cp1 cp2 (Suc rem) p sm =
     chromab_rem cp1 cp2 rem (p + 1) (sm + cmp_low_bit (cp1 ! p) (cp2 ! p))"

definition match_chromab :: "32 word list \<Rightarrow> 64 word \<Rightarrow> 32 word list \<Rightarrow> 64 word \<Rightarrow> real" where
  "match_chromab cp1 cp1_len cp2 cp2_len =
     (let maxsize = unat (min_st cp1_len cp2_len);
          rem = maxsize mod 4;
          end = maxsize div 4
      in if maxsize = 0 then 0
         else
           (let (p, sm4) = chromab_loop cp1 cp2 0 end 0 0;
                sm = chromab_rem cp1 cp2 rem p sm4
            in if sm = 0 then 0
               else real (unat sm) / real (unat (max_st cp1_len cp2_len))))"

subsection \<open>match_chromat\<close>

text \<open>
  The main loop of \<^verbatim>\<open>match_chromat\<close> steps its counter \<open>i\<close> by 4 up to
  \<open>maxsize / 4\<close>, indexes the pointers with \<open>i\<close> for the AND counts and advances
  the same pointers for the OR counts: \<open>p\<close> is the offset the pointers have
  reached, so \<^verbatim>\<open>cp1_32[i]\<close> is element \<open>p + i\<close> of the stream.  The remainder loop
  assigns to \<^verbatim>\<open>tdiff\<close>.  The four counts are added in 32 bits, the totals are
  64-bit.
\<close>

function chromat_loop :: "32 word list \<Rightarrow> 32 word list \<Rightarrow> nat \<Rightarrow> nat \<Rightarrow> nat \<Rightarrow> 64 word \<Rightarrow> 64 word
    \<Rightarrow> nat \<times> 64 word \<times> 64 word" where
  "chromat_loop cp1 cp2 i end p tdiff tcomm =
     (if i < end then
        chromat_loop cp1 cp2 (i + 4) end (p + 4)
          (tdiff + ucast (pop32 (cp1 ! (p + i) AND cp2 ! (p + i))
                          + pop32 (cp1 ! (p + i + 1) AND cp2 ! (p + i + 1))
                          + pop32 (cp1 ! (p + i + 2) AND cp2 ! (p + i + 2))
                          + pop32 (cp1 ! (p + i + 3) AND cp2 ! (p + i + 3))))
          (tcomm + ucast (pop32 (cp1 ! p OR cp2 ! p)
                          + pop32 (cp1 ! (p + 1) OR cp2 ! (p + 1))
                          + pop32 (cp1 ! (p + 2) OR cp2 ! (p + 2))
                          + pop32 (cp1 ! (p + 3) OR cp2 ! (p + 3))))
      else (p, tdiff, tcomm))"
  by pat_completeness auto
termination
  by (relation "measure (\<lambda>(cp1, cp2, i, end, p, tdiff, tcomm). end - i)") auto

declare chromat_loop.simps [simp del]

fun chromat_rem :: "32 word list \<Rightarrow> 32 word list \<Rightarrow> nat \<Rightarrow> nat \<Rightarrow> 64 word \<Rightarrow> 64 word
    \<Rightarrow> 64 word \<times> 64 word" where
  "chromat_rem cp1 cp2 0 p tdiff tcomm = (tdiff, tcomm)"
| "chromat_rem cp1 cp2 (Suc rem) p tdiff tcomm =
     chromat_rem cp1 cp2 rem (p + 1)
       (ucast (pop32 (cp1 ! p AND cp2 ! p)))
       (tcomm + ucast (pop32 (cp1 ! p OR cp2 ! p)))"

definition match_chromat :: "32 word list \<Rightarrow> 64 word \<Rightarrow> 32 word list \<Rightarrow> 64 word \<Rightarrow> real" where
  "match_chromat cp1 cp1_len cp2 cp2_len =
     (let maxsize = unat (min_st cp1_len cp2_len);
          rem = maxsize mod 4;
          end = maxsize div 4
      in if maxsize = 0 then 0
         else
           (let (p, tdiff4, tcomm4) = chromat_loop cp1 cp2 0 end 0 0 0;
                (tdiff, tcomm) = chromat_rem cp1 cp2 rem p tdiff4 tcomm4
            in if tdiff = 0 then 1
               else if tcomm = 0 then 0
               else real (unat tdiff) / real (unat tcomm)))"

text \<open>
  The Tanimoto score in the words of the specification, for comparison: the two
  sums run over the whole compared prefix.
\<close>

definition popcount :: "32 word \<Rightarrow> nat" where
  "popcount w = length (filter (bit w) [0..<32])"

definition match_chromat_spec :: "32 word list \<Rightarrow> 64 word \<Rightarrow> 32 word list \<Rightarrow> 64 word \<Rightarrow> real" where
  "match_chromat_spec cp1 cp1_len cp2 cp2_len =
     (let n = unat (min cp1_len cp2_len);
          tdiff = (\<Sum>i\<leftarrow>[0..<n]. popcount (cp1 ! i AND cp2 ! i));
          tcomm = (\<Sum>i\<leftarrow>[0..<n]. popcount (cp1 ! i OR cp2 ! i))
      in if tcomm = 0 then 0 else if tdiff = 0 then 1 else real tdiff / real tcomm)"

section \<open>The fooid kernel\<close>

definition MAX_RDIFF :: nat where "MAX_RDIFF = 9 * R_SIZE * 8"
definition MAX_DOMDIFF :: nat where "MAX_DOMDIFF = DOM_SIZE * 8"
definition MAX_TOTDIFF :: nat where "MAX_TOTDIFF = MAX_RDIFF + MAX_DOMDIFF"

text \<open>
  \<^verbatim>\<open>rdiff_fooid32\<close> counts the sixteen two-bit lanes of a word into the four
  counters of \<^verbatim>\<open>rdiff\<close>; the lane value is at most 3, so the index is in range.
\<close>

definition rdiff_incr :: "32 word list \<Rightarrow> 32 word \<Rightarrow> 32 word list" where
  "rdiff_incr rdiff j = rdiff[unat j := rdiff ! unat j + 1]"

function rdiff_fooid32_loop :: "32 word \<Rightarrow> nat \<Rightarrow> 32 word list \<Rightarrow> 32 word list" where
  "rdiff_fooid32_loop x i rdiff =
     (if i < 16 then rdiff_fooid32_loop x (i + 1) (rdiff_incr rdiff (drop_bit (i * 2) x AND 0x3))
      else rdiff)"
  by pat_completeness auto
termination
  by (relation "measure (\<lambda>(x, i, rdiff). 16 - i)") auto

declare rdiff_fooid32_loop.simps [simp del]

definition rdiff_fooid32 :: "32 word \<Rightarrow> 32 word list \<Rightarrow> 32 word list" where
  "rdiff_fooid32 x rdiff = rdiff_fooid32_loop x 1 (rdiff_incr rdiff (x AND 0x3))"

definition weigh_rdiff :: "32 word list \<Rightarrow> 32 word" where
  "weigh_rdiff rdiff = rdiff ! 1 + rdiff ! 2 * 4 + rdiff ! 3 * 9"

text \<open>The confidence curve shared by all fooid scores.\<close>

definition fooid_conf :: "32 word \<Rightarrow> 32 word \<Rightarrow> real" where
  "fooid_conf diff_r diff_dom =
     (let perc = real (unat (diff_r + diff_dom)) / real MAX_TOTDIFF;
          conf = ((1 - perc) - 0.5) * 2
      in max (min conf 1) 0)"

function fooid_dom_loop :: "32 word list \<Rightarrow> 32 word list \<Rightarrow> nat \<Rightarrow> 32 word \<Rightarrow> 32 word" where
  "fooid_dom_loop dom32_a dom32_b i diff_dom =
     (if i < DOM_LEN32 then
        fooid_dom_loop dom32_a dom32_b (i + 2)
          (diff_dom + pop32 (dom32_a ! i XOR dom32_b ! i)
                    + pop32 (dom32_a ! (i + 1) XOR dom32_b ! (i + 1)))
      else diff_dom)"
  by pat_completeness auto
termination
  by (relation "measure (\<lambda>(a, b, i, d). DOM_LEN32 - i)") auto

declare fooid_dom_loop.simps [simp del]

definition match_fooid_fp :: "8 word list \<Rightarrow> 8 word list \<Rightarrow> 8 word list \<Rightarrow> 8 word list \<Rightarrow> real" where
  "match_fooid_fp r_a dom_a r_b dom_b =
     (let r_a32 = words32 r_a; r_b32 = words32 r_b;
          rdiff = fold (\<lambda>i. rdiff_fooid32 (r_a32 ! i XOR r_b32 ! i)) [0..<R_SIZE32] [0, 0, 0, 0];
          diff_r = weigh_rdiff rdiff;
          diff_dom = fooid_dom_loop (words32 dom_a) (words32 dom_b) 0 0
                     + pop16 (load16 dom_a DOM_END16 XOR load16 dom_b DOM_END16)
      in fooid_conf diff_r diff_dom)"

section \<open>The composite score\<close>

text \<open>
  The song length gate works in single precision.  \<^verbatim>\<open>(float)\<close> of a non-negative
  integer is the nearest value with a 24-bit significand, ties to even:
  \<open>float_exp n\<close> is the number of low bits that do not fit, \<open>round_float n\<close> the
  rounded value (again an integer).  The difference of two such values is
  rounded in the same way.  \<^verbatim>\<open>0.1f\<close> is \<open>13421773 / 2\<^sup>2\<^sup>7\<close>; its product with the
  result of \<^verbatim>\<open>fmin\<close> is taken in double precision and is exact, having at most 48
  significant bits.
\<close>

function float_exp :: "nat \<Rightarrow> nat" where
  "float_exp n = (if n < 2 ^ 24 then 0 else Suc (float_exp (n div 2)))"
  by pat_completeness auto
termination
  by (relation "measure id") auto

declare float_exp.simps [simp del]

definition round_float :: "nat \<Rightarrow> nat" where
  "round_float n =
     (let e = float_exp n; q = n div 2 ^ e; rest = n mod 2 ^ e
      in if 2 * rest > 2 ^ e \<or> (2 * rest = 2 ^ e \<and> odd q) then (q + 1) * 2 ^ e else q * 2 ^ e)"

text \<open>
  \<^verbatim>\<open>match_cpfm\<close> takes two pointers; \<open>None\<close> is the null pointer.  The value
  returned is the combiner's, as the source returns it.
\<close>

fun match_cpfm :: "FPrint option \<Rightarrow> FPrint option \<Rightarrow> real" where
  "match_cpfm (Some a) (Some b) =
     (let sl_a = round_float (unat (songlen a));
          sl_b = round_float (unat (songlen b));
          songlen_diff = round_float (if sl_a < sl_b then sl_b - sl_a else sl_a - sl_b)
      in if real songlen_diff > (13421773 / 134217728) * real (min sl_a sl_b) then 0
         else
           (let fm = match_fooid_fp (r a) (dom_fp a) (r b) (dom_fp b);
                cp = match_chromab (cprint a) (cprint_len a) (cprint b) (cprint_len b)
            in (0.012985 + 0.263439 * fm + (- 0.683234) * cp + 1.592623 * cp ^ 3 + 0.06348) / 1.2489))"
| "match_cpfm _ _ = 0"

definition FP_EXACT_CUTOFF :: real where "FP_EXACT_CUTOFF = 0.98"
definition FP_ISNEQ :: "real \<Rightarrow> bool" where "FP_ISNEQ val \<longleftrightarrow> val \<le> FP_EXACT_CUTOFF"
definition FP_ISEQ :: "real \<Rightarrow> bool" where "FP_ISEQ val \<longleftrightarrow> val > FP_EXACT_CUTOFF"
definition FP_MATCH_CUTOFF :: real where "FP_MATCH_CUTOFF = 0.6"
definition FP_ISMATCH :: "real \<Rightarrow> bool" where "FP_ISMATCH val \<longleftrightarrow> val > FP_MATCH_CUTOFF"

section \<open>Union keys\<close>

subsection \<open>fprint_merge_one\<close>

text \<open>
  The three loops OR the record into the key through the word pointers and store
  the words back; the codeword loop runs over the record's \<open>cprint_len\<close> and
  leaves the rest of the key's codewords alone.  The caller provides a key with
  at least that many codewords (the loop would write past the key otherwise).
\<close>

definition merge_r :: "8 word list \<Rightarrow> 8 word list \<Rightarrow> 8 word list" where
  "merge_r r_u8 r_a8 =
     (let r_u = words32 r_u8; r_a = words32 r_a8
      in bytes32 (map (\<lambda>i. r_u ! i OR r_a ! i) [0..<R_SIZE32]))"

definition merge_dom :: "8 word list \<Rightarrow> 8 word list \<Rightarrow> 8 word list" where
  "merge_dom dom_u dom_a =
     (let dom32_u = words32 dom_u; dom32_a = words32 dom_a
      in bytes32 (map (\<lambda>j. dom32_u ! j OR dom32_a ! j) [0..<DOM_LEN32])
         @ bytes16 (load16 dom_u DOM_END16 OR load16 dom_a DOM_END16))"

definition merge_cprint :: "32 word list \<Rightarrow> 32 word list \<Rightarrow> nat \<Rightarrow> 32 word list" where
  "merge_cprint cp_u cp_a cp_len =
     map (\<lambda>l. cp_u ! l OR cp_a ! l) [0..<cp_len] @ drop cp_len cp_u"

definition fprint_merge_one :: "FPrintUnion \<Rightarrow> FPrint \<Rightarrow> FPrintUnion" where
  "fprint_merge_one u a =
     u\<lparr> u_r := merge_r (u_r u) (r a),
        u_dom := merge_dom (u_dom u) (dom_fp a),
        u_cprint := merge_cprint (u_cprint u) (cprint a) (unat (cprint_len a)),
        min_songlen := (if min_songlen u > 0 then min_u32 (min_songlen u) (songlen a)
                        else songlen a),
        max_songlen := max_u32 (max_songlen u) (songlen a) \<rparr>"

subsection \<open>match_merges\<close>

definition covered_or_low_bit :: "32 word \<Rightarrow> 32 word \<Rightarrow> 32 word" where
  "covered_or_low_bit x y = (if x = (x AND y) \<or> cmp_low_bit x y \<noteq> 0 then 1 else 0)"


subsection \<open>fprint_merge_one_union\<close>

definition fprint_merge_one_union :: "FPrintUnion \<Rightarrow> FPrintUnion \<Rightarrow> FPrintUnion" where
  "fprint_merge_one_union u a =
     u\<lparr> u_r := merge_r (u_r u) (u_r a),
        u_dom := merge_dom (u_dom u) (u_dom a),
        u_cprint := merge_cprint (u_cprint u) (u_cprint a) (unat (u_cprint_len a)),
        min_songlen := (if min_songlen u > 0 then min_u32 (min_songlen u) (min_songlen a)
                        else min_songlen a),
        max_songlen := max_u32 (max_songlen u) (max_songlen a) \<rparr>"

subsection \<open>match_fprint_merge and try_match_merges\<close>

definition match_fprint_merge :: "FPrint \<Rightarrow> FPrintUnion \<Rightarrow> real" where
  "match_fprint_merge a u =
     (let cp_len = unat (min_st (u_cprint_len u) (cprint_len a));
          r_a = words32 (r a); r_u = words32 (u_r u);
          rdiff = fold (\<lambda>i. rdiff_fooid32 (r_a ! i XOR (r_a ! i AND r_u ! i)))
                    [0..<R_SIZE32] [0, 0, 0, 0];
          diff_r = weigh_rdiff rdiff;
          dom32_a = words32 (dom_fp a); dom32_u = words32 (u_dom u);
          a_d16 = load16 (dom_fp a) DOM_END16;
          diff_dom = (\<Sum>j\<leftarrow>[0..<DOM_LEN32].
                        pop32 (dom32_a ! j XOR (dom32_a ! j AND dom32_u ! j)))
                     + pop16 (a_d16 XOR (a_d16 AND load16 (u_dom u) DOM_END16));
          fooid = fooid_conf diff_r diff_dom;
          diff_cp = (\<Sum>k\<leftarrow>[0..<cp_len]. covered_or_low_bit (cprint a ! k) (u_cprint u ! k));
          chroma = (if cp_len > 0
                    then real (unat diff_cp) / real (unat (cprint_len a)) else 0);
          comb = ((0.012985 + 0.263439 * fooid + (- 0.683234) * chroma
                   + 1.592623 * (chroma * chroma * chroma)) + 0.06348) / 1.2489
      in max (min comb 1) 0)"

text \<open>
  \<^verbatim>\<open>try_match_merges(u1, u2, a)\<close>: the score of \<open>u1\<close> against \<open>u2\<close> with \<open>a\<close> ORed in.
  After the common prefix of the three codeword streams, one more loop runs when
  \<open>u1\<close> and one of the other two are longer.
\<close>

definition try_match_merges :: "FPrintUnion \<Rightarrow> FPrintUnion \<Rightarrow> FPrint \<Rightarrow> real" where
  "try_match_merges u1 u2 a =
     (let r_u1 = words32 (u_r u1); r_u2 = words32 (u_r u2); r_a = words32 (r a);
          rdiff = fold (\<lambda>i. let x = r_u1 ! i; y = r_u2 ! i OR r_a ! i
                              in rdiff_fooid32 (x XOR (x AND y)))
                    [0..<R_SIZE32] [0, 0, 0, 0];
          diff_r = weigh_rdiff rdiff;
          dom32_u1 = words32 (u_dom u1); dom32_u2 = words32 (u_dom u2);
          dom32_a = words32 (dom_fp a);
          z1 = load16 (u_dom u1) DOM_END16;
          z2 = load16 (u_dom u2) DOM_END16 OR load16 (dom_fp a) DOM_END16;
          diff_dom = (\<Sum>j\<leftarrow>[0..<DOM_LEN32].
                        let x = dom32_u1 ! j; y = dom32_u2 ! j OR dom32_a ! j
                        in pop32 (x XOR (x AND y)))
                     + pop16 (z1 XOR (z1 AND z2));
          fooid = fooid_conf diff_r diff_dom;
          cp_u1 = u_cprint u1; cp_u2 = u_cprint u2; cp_a = cprint a;
          cp_len0 = min_st (min_st (u_cprint_len u1) (u_cprint_len u2)) (cprint_len a);
          diff_cp0 = (\<Sum>k\<leftarrow>[0..<unat cp_len0].
                        covered_or_low_bit (cp_u1 ! k) (cp_u2 ! k OR cp_a ! k));
          (cp_len, diff_cp) =
             (if u_cprint_len u1 > cp_len0 then
                if cprint_len a > cp_len0 then
                  (let cp_len1 = min_st (u_cprint_len u1) (cprint_len a)
                   in (cp_len1,
                       diff_cp0 + (\<Sum>l\<leftarrow>[unat (u_cprint_len u2)..<unat cp_len1].
                                     covered_or_low_bit (cp_u1 ! l) (cp_a ! l))))
                else if u_cprint_len u2 > cp_len0 then
                  (let cp_len1 = min_st (u_cprint_len u1) (u_cprint_len u2)
                   in (cp_len1,
                       diff_cp0 + (\<Sum>l\<leftarrow>[unat (cprint_len a)..<unat cp_len1].
                                     covered_or_low_bit (cp_u1 ! l) (cp_u2 ! l))))
                else (cp_len0, diff_cp0)
              else (cp_len0, diff_cp0));
          chroma = (if cp_len > 0
                    then real (unat diff_cp) / real (unat (u_cprint_len u1)) else 0);
          comb = ((0.012985 + 0.263439 * fooid + (- 0.683234) * chroma
                   + 1.592623 * (chroma * chroma * chroma)) + 0.06348) / 1.2489
      in max (min comb 1) 0)"

section \<open>Text codec (fplib.c)\<close>

subsection \<open>The pieces of the C library the codec calls\<close>

text \<open>
  A C string is a \<open>string\<close> without the terminating NUL; a buffer is a \<open>string\<close>
  that may hold NULs.  \<^verbatim>\<open>snprintf\<close>, \<^verbatim>\<open>strncpy\<close>, \<^verbatim>\<open>sscanf\<close> and \<^verbatim>\<open>strtol\<close> belong to the
  C library; they are modelled after the C standard for the conversions the
  codec uses (\<^verbatim>\<open>%u\<close>, \<^verbatim>\<open>%d\<close>, \<^verbatim>\<open>%02X\<close>, \<^verbatim>\<open>%2hhX\<close>).  Where the standard leaves the
  result open (a number beyond the range of the type, a \<^verbatim>\<open>0x\<close> prefix that fills
  the field width) the scanning conversions follow the GNU C library.
\<close>

definition NUL :: char where "NUL = CHR 0x00"

definition digit_char :: "nat \<Rightarrow> char" where
  "digit_char d = char_of (48 + d)"

function dec_nat :: "nat \<Rightarrow> string" where
  "dec_nat n = (if n < 10 then [digit_char n] else dec_nat (n div 10) @ [digit_char (n mod 10)])"
  by pat_completeness auto
termination
  by (relation "measure id") auto

declare dec_nat.simps [simp del]

definition fmt_u :: "32 word \<Rightarrow> string" where
  "fmt_u w = dec_nat (unat w)"

definition fmt_d :: "32 word \<Rightarrow> string" where
  "fmt_d w = (if sint w < 0 then CHR ''-'' # dec_nat (nat (- sint w)) else dec_nat (nat (sint w)))"

definition hex_char :: "nat \<Rightarrow> char" where
  "hex_char d = (if d < 10 then char_of (48 + d) else char_of (55 + d))"

definition fmt_02X :: "8 word \<Rightarrow> string" where
  "fmt_02X b = [hex_char (unat b div 16), hex_char (unat b mod 16)]"

definition write_at :: "string \<Rightarrow> nat \<Rightarrow> string \<Rightarrow> string" where
  "write_at buf pos s = take pos buf @ s @ drop (pos + length s) buf"

text \<open>\<^verbatim>\<open>snprintf(&buf[pos], size, ...)\<close> with formatted text \<open>s\<close>: the new buffer and the return value.\<close>

definition snprintf_at :: "string \<Rightarrow> nat \<Rightarrow> nat \<Rightarrow> string \<Rightarrow> string \<times> nat" where
  "snprintf_at buf pos sz s = (write_at buf pos (take (sz - 1) s @ [NUL]), length s)"

text \<open>\<^verbatim>\<open>strncpy(&buf[pos], src, n)\<close>: \<open>n\<close> bytes are written, NUL-padded.\<close>

definition strncpy_at :: "string \<Rightarrow> nat \<Rightarrow> string \<Rightarrow> nat \<Rightarrow> string" where
  "strncpy_at buf pos src n = write_at buf pos (take n (src @ replicate n NUL))"

definition c_string :: "string \<Rightarrow> string" where
  "c_string buf = takeWhile (\<lambda>c. c \<noteq> NUL) buf"

definition is_digit :: "char \<Rightarrow> bool" where
  "is_digit c \<longleftrightarrow> 48 \<le> (of_char c :: nat) \<and> (of_char c :: nat) \<le> 57"

definition is_space :: "char \<Rightarrow> bool" where
  "is_space c \<longleftrightarrow> (of_char c :: nat) = 32 \<or> (9 \<le> (of_char c :: nat) \<and> (of_char c :: nat) \<le> 13)"

definition digit_val :: "char \<Rightarrow> nat" where
  "digit_val c = of_char c - 48"

definition hex_val :: "char \<Rightarrow> nat option" where
  "hex_val c =
     (let n = (of_char c :: nat)
      in if 48 \<le> n \<and> n \<le> 57 then Some (n - 48)
         else if 65 \<le> n \<and> n \<le> 70 then Some (n - 55)
         else if 97 \<le> n \<and> n \<le> 102 then Some (n - 87)
         else None)"

definition dec_val :: "string \<Rightarrow> nat" where
  "dec_val ds = foldl (\<lambda>v c. 10 * v + digit_val c) 0 ds"

definition is_sign :: "char \<Rightarrow> bool" where
  "is_sign c \<longleftrightarrow> c = CHR ''-'' \<or> c = CHR ''+''"

text \<open>
  \<^verbatim>\<open>%u\<close>: white space is skipped, then an optional sign and a non-empty run of
  digits are converted as \<^verbatim>\<open>strtoul\<close> does, and the \<^verbatim>\<open>unsigned long\<close> is cut to 32
  bits.  A digit string beyond the range of \<^verbatim>\<open>unsigned long\<close> gives \<^verbatim>\<open>ULONG_MAX\<close>.
\<close>

definition scan_u :: "string \<Rightarrow> (32 word \<times> string) option" where
  "scan_u s =
     (case dropWhile is_space s of
        [] \<Rightarrow> None
      | c # t \<Rightarrow>
          (let t' = (if is_sign c then t else c # t);
               ds = takeWhile is_digit t';
               v = dec_val ds
           in if ds = [] then None
              else Some (if v \<ge> 2 ^ 64 then - 1
                         else if c = CHR ''-'' then - of_nat v else of_nat v,
                         dropWhile is_digit t')))"

text \<open>
  \<^verbatim>\<open>%2hhX\<close>: white space is skipped, then at most two characters are taken: a
  sign and a hex digit, or one or two hex digits; the value is cut to 8 bits.
  \<^verbatim>\<open>0x\<close> is taken as a prefix with no digit after it and converts to 0.
\<close>

definition scan_2hhX :: "string \<Rightarrow> (8 word \<times> string) option" where
  "scan_2hhX s =
     (case dropWhile is_space s of
        [] \<Rightarrow> None
      | c # t \<Rightarrow>
          if is_sign c then
            (case t of
               [] \<Rightarrow> None
             | d # t' \<Rightarrow>
                 (case hex_val d of
                    None \<Rightarrow> None
                  | Some l \<Rightarrow> Some (if c = CHR ''-'' then - of_nat l else of_nat l, t')))
          else
            (case hex_val c of
               None \<Rightarrow> None
             | Some h \<Rightarrow>
                 (case t of
                    [] \<Rightarrow> Some (of_nat h, t)
                  | d # t' \<Rightarrow>
                      if c = CHR ''0'' \<and> (d = CHR ''x'' \<or> d = CHR ''X'') then Some (0, t')
                      else
                        (case hex_val d of
                           None \<Rightarrow> Some (of_nat h, t)
                         | Some l \<Rightarrow> Some (of_nat (16 * h + l), t')))))"

text \<open>A literal character of a \<^verbatim>\<open>sscanf\<close> format.\<close>

definition scan_lit :: "char \<Rightarrow> string \<Rightarrow> string option" where
  "scan_lit c s = (case s of [] \<Rightarrow> None | d # t \<Rightarrow> if d = c then Some t else None)"

text \<open>\<^verbatim>\<open>sscanf(s, "(%u,%u,%u,", ...)\<close>: the values converted before the first failure.\<close>

definition sscanf_base :: "string \<Rightarrow> 32 word list" where
  "sscanf_base s =
     (case scan_lit CHR ''('' s of None \<Rightarrow> [] | Some s1 \<Rightarrow>
      case scan_u s1 of None \<Rightarrow> [] | Some (a, s2) \<Rightarrow>
      case scan_lit CHR '','' s2 of None \<Rightarrow> [a] | Some s3 \<Rightarrow>
      case scan_u s3 of None \<Rightarrow> [a] | Some (b, s4) \<Rightarrow>
      case scan_lit CHR '','' s4 of None \<Rightarrow> [a, b] | Some s5 \<Rightarrow>
      case scan_u s5 of None \<Rightarrow> [a, b] | Some (c, s6) \<Rightarrow> [a, b, c])"

text \<open>\<^verbatim>\<open>sscanf\<close> with \<open>k\<close> conversions \<^verbatim>\<open>%2hhX\<close>: the bytes converted before the first failure.\<close>

fun sscanf_hex :: "nat \<Rightarrow> string \<Rightarrow> 8 word list" where
  "sscanf_hex 0 s = []"
| "sscanf_hex (Suc k) s =
     (case scan_2hhX s of None \<Rightarrow> [] | Some (b, t) \<Rightarrow> b # sscanf_hex k t)"

text \<open>
  \<^verbatim>\<open>(int32_t) strtol(cpn_str, NULL, 10)\<close> on the text the codeword loop collects: an
  optional minus sign followed by digits (no digits convert to 0).
\<close>

definition strtol32 :: "string \<Rightarrow> 32 word" where
  "strtol32 s =
     (case s of
        [] \<Rightarrow> 0
      | c # t \<Rightarrow> if c = CHR ''-'' then - of_nat (dec_val t) else of_nat (dec_val s))"

subsection \<open>fprint_to_string\<close>

definition BASE_SIZE :: nat where "BASE_SIZE = 24"

definition BASEFMT :: "32 word \<Rightarrow> 32 word \<Rightarrow> 32 word \<Rightarrow> string" where
  "BASEFMT a b c = ''('' @ fmt_u a @ '','' @ fmt_u b @ '','' @ fmt_u c @ '',''"

definition put_hex :: "8 word list \<Rightarrow> nat \<Rightarrow> string \<times> nat \<Rightarrow> string \<times> nat" where
  "put_hex bs i st =
     (case st of (tmpstr, out_len) \<Rightarrow>
        (let (tmpstr', n) = snprintf_at tmpstr out_len 3 (fmt_02X (bs ! i))
         in (tmpstr', out_len + n)))"

definition put_cp :: "32 word list \<Rightarrow> nat \<Rightarrow> string \<times> nat \<Rightarrow> string \<times> nat" where
  "put_cp cp j st =
     (case st of (tmpstr, out_len) \<Rightarrow>
        (let (tmpstr', n) = snprintf_at tmpstr out_len 13 (fmt_d (cp ! j) @ '' '')
         in (tmpstr', out_len + n)))"

text \<open>
  The header is formatted into the 24-byte array \<^verbatim>\<open>base\<close>; \<^verbatim>\<open>base_sz\<close> is the
  length the header would have had.  The output buffer is zeroed by \<^verbatim>\<open>calloc\<close>,
  and the result is the C string it holds at the end.
\<close>

definition fprint_to_string :: "FPrint option \<Rightarrow> string" where
  "fprint_to_string fpo =
     (case fpo of
        None \<Rightarrow> ''''
      | Some fp \<Rightarrow>
         (let n = unat (cprint_len fp);
              (base_buf, base_sz) =
                 snprintf_at (replicate BASE_SIZE NUL) 0 BASE_SIZE
                   (BASEFMT (songlen fp) (bit_rate fp) (num_errors fp));
              base = c_string base_buf;
              str_sz = base_sz + (2 * R_SIZE + 1) + (2 * DOM_SIZE + 1) + 12 * n + 2;
              tmpstr0 = strncpy_at (replicate str_sz NUL) 0 base str_sz;
              (tmpstr1, out_len1) = fold (put_hex (r fp)) [0..<R_SIZE] (tmpstr0, base_sz);
              tmpstr2 = strncpy_at tmpstr1 out_len1 '','' 2;
              (tmpstr3, out_len3) = fold (put_hex (dom_fp fp)) [0..<DOM_SIZE] (tmpstr2, out_len1 + 1);
              tmpstr4 = strncpy_at tmpstr3 out_len3 '','' 2;
              (tmpstr5, out_len5) = fold (put_cp (cprint fp)) [0..<n] (tmpstr4, out_len3 + 1);
              out_len6 = out_len5 - 1;
              tmpstr6 = strncpy_at tmpstr5 out_len6 '')'' 2
          in c_string (take (out_len6 + 1 + 1) tmpstr6)))"

subsection \<open>fprint_from_string\<close>

text \<open>
  The comma loop reads on until it has seen three commas; running into the
  terminator (and past it) is outside the string and is \<open>None\<close> here.
\<close>

fun skip_commas :: "nat \<Rightarrow> string \<Rightarrow> string option" where
  "skip_commas 0 s = Some s"
| "skip_commas (Suc k) [] = None"
| "skip_commas (Suc k) (c # s) = (if c = CHR '','' then skip_commas k s else skip_commas (Suc k) s)"

text \<open>The block loops: \<open>m\<close> calls of \<^verbatim>\<open>sscanf\<close> with \<open>k\<close> conversions each, \<open>2 k\<close> characters apart.\<close>

fun scan_block :: "nat \<Rightarrow> nat \<Rightarrow> string \<Rightarrow> (8 word list \<times> string) option" where
  "scan_block 0 k s = Some ([], s)"
| "scan_block (Suc m) k s =
     (let bs = sscanf_hex k s
      in if length bs \<noteq> k then None
         else (case scan_block m k (drop (2 * k) s) of
                 None \<Rightarrow> None
               | Some (rest, t) \<Rightarrow> Some (bs @ rest, t)))"

text \<open>
  The codeword loop: \<open>cpn_str\<close> is the text collected for the current number; the
  loop ends at the closing parenthesis or at the end of the string.
\<close>

fun scan_cprint :: "string \<Rightarrow> string \<Rightarrow> 32 word list \<Rightarrow> 32 word list option" where
  "scan_cprint [] cpn_str cps = Some cps"
| "scan_cprint (c # s) cpn_str cps =
     (if length cpn_str \<ge> 12 then None
      else if c = CHR '' '' \<or> c = CHR '')'' then
        (let cps' = cps @ [strtol32 cpn_str]
         in if c = CHR '')'' then Some cps' else scan_cprint s [] cps')
      else if is_digit c \<or> (cpn_str = [] \<and> c = CHR ''-'') then scan_cprint s (cpn_str @ [c]) cps
      else None)"

definition fprint_from_string :: "string option \<Rightarrow> FPrint option" where
  "fprint_from_string fpo =
     (case fpo of
        None \<Rightarrow> None
      | Some fp_str \<Rightarrow>
          if length fp_str < 11 + 2 * R_SIZE + 2 * DOM_SIZE then None
          else
            (case sscanf_base fp_str of
               [songlen', bit_rate', num_errors'] \<Rightarrow>
                 (case skip_commas 3 fp_str of
                    None \<Rightarrow> None
                  | Some s1 \<Rightarrow>
                     (case scan_block (R_SIZE div 4) 4 s1 of
                        None \<Rightarrow> None
                      | Some (r', s2) \<Rightarrow>
                         (case scan_lit CHR '','' s2 of
                            None \<Rightarrow> None
                          | Some s3 \<Rightarrow>
                             (case scan_block (DOM_SIZE div 2) 2 s3 of
                                None \<Rightarrow> None
                              | Some (dom', s4) \<Rightarrow>
                                 (case scan_lit CHR '','' s4 of
                                    None \<Rightarrow> None
                                  | Some s5 \<Rightarrow>
                                     (case scan_cprint s5 [] [] of
                                        None \<Rightarrow> None
                                      | Some cprint' \<Rightarrow>
                                          Some \<lparr> cprint_len = of_nat (length cprint'),
                                                 songlen = songlen', bit_rate = bit_rate',
                                                 num_errors = num_errors',
                                                 r = r', dom_fp = dom', cprint = cprint' \<rparr>))))))
             | _ \<Rightarrow> None))"

section \<open>Index operators\<close>

subsection \<open>Keys on a page\<close>

text \<open>
  \<^verbatim>\<open>FPrint\<close> and \<^verbatim>\<open>FPrintUnion\<close> have the same layout, and the index casts pointers
  between them: \<open>songlen\<close> is read as \<open>min_songlen\<close> and \<open>num_errors\<close> as
  \<open>max_songlen\<close>.
\<close>

definition union_of :: "FPrint \<Rightarrow> FPrintUnion" where
  "union_of fp =
     \<lparr> u_cprint_len = cprint_len fp, min_songlen = songlen fp, u_bit_rate = bit_rate fp,
       max_songlen = num_errors fp, u_r = r fp, u_dom = dom_fp fp, u_cprint = cprint fp \<rparr>"

definition fprint_of :: "FPrintUnion \<Rightarrow> FPrint" where
  "fprint_of u =
     \<lparr> cprint_len = u_cprint_len u, songlen = min_songlen u, bit_rate = u_bit_rate u,
       num_errors = max_songlen u, r = u_r u, dom_fp = u_dom u, cprint = u_cprint u \<rparr>"

definition MAX_KEY_CP_LEN :: "64 word" where "MAX_KEY_CP_LEN = 240"
definition KEY_CP_START_IX1 :: nat where "KEY_CP_START_IX1 = 464"
definition KEY_CP_END_IX1 :: "64 word" where "KEY_CP_END_IX1 = 704"
definition KEY_CP_START_IX2 :: nat where "KEY_CP_START_IX2 = 704"
definition KEY_CP_END_IX2 :: "64 word" where "KEY_CP_END_IX2 = 944"

text \<open>
  \<^verbatim>\<open>elog(ERROR, ...)\<close> of the host does not return: it ends the operator.
\<close>

datatype error = ELOG_ERROR

text \<open>
  \<^verbatim>\<open>deserialize_fprint\<close> copies the header and a window of at most 240 codewords.
  The result \<open>None\<close> is the null pointer (returned for \<open>cprint_len = 100000\<close>).
\<close>

definition deserialize_fprint :: "FPrint \<Rightarrow> error + FPrint option" where
  "deserialize_fprint fp =
     (if cprint_len fp < 100000 then
        (let key_cp_len = min_st MAX_KEY_CP_LEN (cprint_len fp);
             start = (if cprint_len fp \<ge> KEY_CP_END_IX2 then KEY_CP_START_IX2
                      else if cprint_len fp \<ge> KEY_CP_END_IX1 then KEY_CP_START_IX1
                      else 0)
         in Inr (Some (fp\<lparr> cprint := take (unat key_cp_len) (drop start (cprint fp)),
                            cprint_len := key_cp_len \<rparr>)))
      else if cprint_len fp > 100000 then Inl ELOG_ERROR
      else Inr None)"

text \<open>
  \<^verbatim>\<open>check_union_size\<close> grows the key with \<^verbatim>\<open>realloc\<close> when the new record has more
  codewords.  The added cells are not initialised; \<open>junk l\<close> stands for what cell
  \<open>l\<close> holds.
\<close>

definition check_union_size :: "(nat \<Rightarrow> 32 word) \<Rightarrow> FPrintUnion \<Rightarrow> FPrint \<Rightarrow> FPrintUnion" where
  "check_union_size junk fp_u fp_n =
     (let n_cplen = min_st (cprint_len fp_n) MAX_KEY_CP_LEN
      in if n_cplen > u_cprint_len fp_u
         then fp_u\<lparr> u_cprint := u_cprint fp_u @ map junk [length (u_cprint fp_u)..<unat n_cplen],
                    u_cprint_len := n_cplen \<rparr>
         else fp_u)"

subsection \<open>picksplit\<close>

record Match =
  ix1 :: nat
  ix2 :: nat
  songlen_diff :: "32 word"
  val :: real

definition cmp_matches :: "Match \<Rightarrow> Match \<Rightarrow> int" where
  "cmp_matches m1 m2 =
     (if songlen_diff m1 > songlen_diff m2 then 1
      else if songlen_diff m1 < songlen_diff m2 then - 1
      else if val m1 > val m2 then 1
      else if val m1 < val m2 then - 1
      else 0)"

text \<open>
  The order in which \<^verbatim>\<open>qsort\<close> leaves the array of matches is a parameter \<open>qs\<close> of
  the model: the array holds pointers to the matches and \<^verbatim>\<open>cmp_matches\<close> is handed
  the addresses of its slots, which it reads as if they were matches, so the
  order depends on the addresses.  An insertion sort by \<^verbatim>\<open>cmp_matches\<close> on the
  matches themselves is one instance.
\<close>

fun insert_match :: "Match \<Rightarrow> Match list \<Rightarrow> Match list" where
  "insert_match m [] = [m]"
| "insert_match m (x # xs) = (if cmp_matches m x \<le> 0 then m # x # xs else x # insert_match m xs)"

definition sort_matches :: "Match list \<Rightarrow> Match list" where
  "sort_matches ms = foldr insert_match ms []"

record split_state =
  s_left :: "nat list"
  s_right :: "nat list"
  fp_ul :: FPrintUnion
  fp_ur :: FPrintUnion

text \<open>The macros \<^verbatim>\<open>ASSIGN_IX\<close> and \<^verbatim>\<open>ASSIGN_IXU\<close>, for either side.\<close>

definition assign_left :: "(nat \<Rightarrow> 32 word) \<Rightarrow> nat \<Rightarrow> FPrint \<Rightarrow> split_state \<Rightarrow> split_state" where
  "assign_left junk ix fpx st =
     st\<lparr> s_left := s_left st @ [ix + 1],
         fp_ul := fprint_merge_one (check_union_size junk (fp_ul st) fpx) fpx \<rparr>"

definition assign_right :: "(nat \<Rightarrow> 32 word) \<Rightarrow> nat \<Rightarrow> FPrint \<Rightarrow> split_state \<Rightarrow> split_state" where
  "assign_right junk ix fpx st =
     st\<lparr> s_right := s_right st @ [ix + 1],
         fp_ur := fprint_merge_one (check_union_size junk (fp_ur st) fpx) fpx \<rparr>"

definition assign_left_u :: "(nat \<Rightarrow> 32 word) \<Rightarrow> nat \<Rightarrow> FPrintUnion \<Rightarrow> split_state \<Rightarrow> split_state" where
  "assign_left_u junk ix fpux st =
     st\<lparr> s_left := s_left st @ [ix + 1],
         fp_ul := fprint_merge_one_union (check_union_size junk (fp_ul st) (fprint_of fpux)) fpux \<rparr>"

definition assign_right_u :: "(nat \<Rightarrow> 32 word) \<Rightarrow> nat \<Rightarrow> FPrintUnion \<Rightarrow> split_state \<Rightarrow> split_state" where
  "assign_right_u junk ix fpux st =
     st\<lparr> s_right := s_right st @ [ix + 1],
         fp_ur := fprint_merge_one_union (check_union_size junk (fp_ur st) (fprint_of fpux)) fpux \<rparr>"

definition WISH_F :: "nat \<Rightarrow> nat \<Rightarrow> real \<Rightarrow> real" where
  "WISH_F a b c = - real_of_int ((int a - int b) * (int a - int b) * (int a - int b)) * c"

text \<open>
  The first pass over the entries: the seeds, the song length bounds and whether
  all bounds coincide, for leaves and for node keys.
\<close>

definition scan_leaves :: "FPrint list \<Rightarrow> nat \<times> nat \<times> 32 word \<times> 32 word \<times> bool" where
  "scan_leaves raw_vec =
     fold (\<lambda>i (seed_left, seed_right, min_sl, max_sl, allisequal).
             let fp1 = raw_vec ! i
             in if min_sl > songlen fp1 then (i, seed_right, songlen fp1, max_sl, False)
                else if max_sl < songlen fp1 then (seed_left, i, min_sl, songlen fp1, False)
                else (seed_left, seed_right, min_sl, max_sl, allisequal))
          [1..<length raw_vec]
          (0, 0, songlen (raw_vec ! 0), songlen (raw_vec ! 0), True)"

definition scan_nodes :: "FPrint list \<Rightarrow> nat \<times> nat \<times> 32 word \<times> 32 word \<times> bool" where
  "scan_nodes raw_vec =
     fold (\<lambda>i (seed_left, seed_right, min_sl, max_sl, allisequal).
             let fpu1 = union_of (raw_vec ! i)
             in if min_sl > min_songlen fpu1 then (i, seed_right, min_songlen fpu1, max_sl, False)
                else if max_sl < max_songlen fpu1 then (seed_left, i, min_sl, max_songlen fpu1, False)
                else (seed_left, seed_right, min_sl, max_sl, allisequal))
          [1..<length raw_vec]
          (0, 0, min_songlen (union_of (raw_vec ! 0)), max_songlen (union_of (raw_vec ! 0)), True)"

text \<open>The pairwise matches of the all-equal case, in the order the two loops fill them.\<close>

definition pair_matches :: "bool \<Rightarrow> FPrint list \<Rightarrow> Match list" where
  "pair_matches leaf_split raw_vec =
     concat (map (\<lambda>k. map (\<lambda>l.
        \<lparr> ix1 = k, ix2 = l, songlen_diff = 0,
          val = (if leaf_split then match_cpfm (Some (raw_vec ! k)) (Some (raw_vec ! l))
                 else match_fprint_merge (raw_vec ! k) (union_of (raw_vec ! l))) \<rparr>)
        [k + 1..<length raw_vec]) [0..<length raw_vec])"

text \<open>The split of the all-equal case: the first \<open>max_clust_sz\<close> entries go left.\<close>

definition equal_step :: "(nat \<Rightarrow> 32 word) \<Rightarrow> bool \<Rightarrow> FPrint list \<Rightarrow> nat \<Rightarrow> nat \<Rightarrow> split_state \<Rightarrow> split_state" where
  "equal_step junk leaf_split raw_vec max_clust_sz k st =
     (if leaf_split then
        (if k < max_clust_sz then assign_left junk k (raw_vec ! k) st
         else assign_right junk k (raw_vec ! k) st)
      else
        (if k < max_clust_sz then assign_left_u junk k (union_of (raw_vec ! k)) st
         else assign_right_u junk k (union_of (raw_vec ! k)) st))"

text \<open>The matches of the general case, one per entry, against the two seed keys.\<close>

definition seed_matches :: "bool \<Rightarrow> FPrint list \<Rightarrow> Match list \<Rightarrow> 32 word \<Rightarrow> 32 word
    \<Rightarrow> FPrintUnion \<Rightarrow> FPrintUnion \<Rightarrow> Match list" where
  "seed_matches leaf_split raw_vec matches min_sl max_sl ul ur =
     map (\<lambda>k.
        let fp1 = raw_vec ! k;
            tmatch_left = try_match_merges ur ul fp1;
            tmatch_right = try_match_merges ul ur fp1
        in (matches ! k)\<lparr> ix1 := k,
              songlen_diff :=
                (if leaf_split then min_u32 (songlen fp1 - min_sl) (max_sl - songlen fp1)
                 else min_u32 (max_songlen (union_of fp1) - min_sl)
                              (max_sl - min_songlen (union_of fp1))),
              val := min tmatch_left tmatch_right \<rparr>)
       [0..<length raw_vec]"

text \<open>One round of the assignment loop of the general case.\<close>

definition assign_step :: "(nat \<Rightarrow> 32 word) \<Rightarrow> bool \<Rightarrow> FPrint list \<Rightarrow> nat \<Rightarrow> nat \<Rightarrow> 32 word \<Rightarrow> 32 word
    \<Rightarrow> Match \<Rightarrow> split_state \<Rightarrow> split_state" where
  "assign_step junk leaf_split raw_vec seed_left seed_right min_sl max_sl m st =
     (let k = ix1 m
      in if k = seed_left \<or> k = seed_right then st
         else if leaf_split then
           (let fp1 = raw_vec ! k
            in if songlen fp1 - min_sl < max_sl - songlen fp1 then assign_left junk k fp1 st
               else if songlen fp1 - min_sl > max_sl - songlen fp1 then assign_right junk k fp1 st
               else
                 (let tmatch_left = try_match_merges (fp_ur st) (fp_ul st) fp1;
                      tmatch_right = try_match_merges (fp_ul st) (fp_ur st) fp1;
                      n_left = length (s_left st); n_right = length (s_right st)
                  in if tmatch_left < tmatch_right + WISH_F n_left n_right 0.1
                     then assign_left junk k fp1 st
                     else if tmatch_left > tmatch_right then assign_right junk k fp1 st
                     else if n_left < n_right then assign_left junk k fp1 st
                     else assign_right junk k fp1 st))
         else
           (let fpu1 = union_of (raw_vec ! k)
            in if max_songlen fpu1 - min_sl < max_sl - min_songlen fpu1
               then assign_left_u junk k fpu1 st
               else if max_songlen fpu1 - min_sl > max_sl - min_songlen fpu1
               then assign_right_u junk k fpu1 st
               else
                 (let tmatch_left = try_match_merges (fp_ur st) (fp_ul st) (fprint_of fpu1);
                      tmatch_right = try_match_merges (fp_ul st) (fp_ur st) (fprint_of fpu1);
                      n_left = length (s_left st); n_right = length (s_right st)
                  in if tmatch_left < tmatch_right + WISH_F n_left n_right 0.1
                     then assign_left_u junk k fpu1 st
                     else if tmatch_left > tmatch_right then assign_right_u junk k fpu1 st
                     else if n_left < n_right then assign_left_u junk k fpu1 st
                     else assign_right_u junk k fpu1 st)))"

record GIST_SPLITVEC =
  spl_left :: "nat list"
  spl_nleft :: nat
  spl_ldatum :: FPrintUnion
  spl_right :: "nat list"
  spl_nright :: nat
  spl_rdatum :: FPrintUnion

definition split_of :: "split_state \<Rightarrow> GIST_SPLITVEC" where
  "split_of st =
     \<lparr> spl_left = s_left st, spl_nleft = length (s_left st), spl_ldatum = fp_ul st,
       spl_right = s_right st, spl_nright = length (s_right st), spl_rdatum = fp_ur st \<rparr>"

text \<open>All entries are deserialised first; the first failure ends the operator.\<close>

fun deserialize_all :: "FPrint list \<Rightarrow> error + FPrint list" where
  "deserialize_all [] = Inr []"
| "deserialize_all (e # es) =
     (case deserialize_fprint e of
        Inl err \<Rightarrow> Inl err
      | Inr None \<Rightarrow> Inl ELOG_ERROR
      | Inr (Some fp1) \<Rightarrow>
          (case deserialize_all es of Inl err \<Rightarrow> Inl err | Inr fps \<Rightarrow> Inr (fp1 # fps)))"

definition seed_key :: "FPrint \<Rightarrow> 32 word \<Rightarrow> FPrintUnion" where
  "seed_key fp sl = (union_of fp)\<lparr> max_songlen := sl, min_songlen := sl \<rparr>"

definition general_split :: "(Match list \<Rightarrow> Match list) \<Rightarrow> (nat \<Rightarrow> 32 word) \<Rightarrow> bool \<Rightarrow> FPrint list
    \<Rightarrow> Match list \<Rightarrow> nat \<Rightarrow> nat \<Rightarrow> 32 word \<Rightarrow> 32 word \<Rightarrow> split_state" where
  "general_split qs junk leaf_split raw_vec matches seed_left seed_right min_sl max_sl =
     (let ul = seed_key (raw_vec ! seed_left) min_sl;
          ur = seed_key (raw_vec ! seed_right) max_sl;
          st0 = \<lparr> s_left = [seed_left + 1], s_right = [seed_right + 1], fp_ul = ul, fp_ur = ur \<rparr>;
          sorted = qs (seed_matches leaf_split raw_vec matches min_sl max_sl ul ur)
      in fold (assign_step junk leaf_split raw_vec seed_left seed_right min_sl max_sl) sorted st0)"

definition equal_split :: "(nat \<Rightarrow> 32 word) \<Rightarrow> bool \<Rightarrow> FPrint list \<Rightarrow> 32 word \<Rightarrow> 32 word \<Rightarrow> split_state" where
  "equal_split junk leaf_split raw_vec min_sl max_sl =
     (let n_entries = length raw_vec;
          max_clust_sz = (if n_entries mod 2 = 0 then n_entries div 2 else n_entries div 2 + 1);
          st0 = \<lparr> s_left = [1], s_right = [n_entries],
                  fp_ul = seed_key (raw_vec ! 0) min_sl,
                  fp_ur = seed_key (raw_vec ! (n_entries - 1)) max_sl \<rparr>
      in fold (equal_step junk leaf_split raw_vec max_clust_sz) [1..<n_entries - 1] st0)"

text \<open>
  \<^verbatim>\<open>fprint_picksplit\<close>.  \<open>entv\<close> are the keys of the entries at offsets \<open>1 \<dots> n\<close>,
  \<open>leaf\<close> is \<^verbatim>\<open>GIST_LEAF\<close> of the first entry.  The matches are allocated without
  being initialised; their fields are 0 here until they are written, and \<open>ix2\<close>
  is not read in the general case.
\<close>

definition fprint_picksplit :: "(Match list \<Rightarrow> Match list) \<Rightarrow> (nat \<Rightarrow> 32 word) \<Rightarrow> bool \<Rightarrow> FPrint list
    \<Rightarrow> error + GIST_SPLITVEC" where
  "fprint_picksplit qs junk leaf entv =
     (case deserialize_all entv of
        Inl err \<Rightarrow> Inl err
      | Inr raw_vec \<Rightarrow>
          (let n_entries = length raw_vec;
               leaf_split = leaf;
               (seed_left, seed_right, min_sl, max_sl, allisequal) =
                  (if leaf_split then scan_leaves raw_vec else scan_nodes raw_vec)
           in if n_entries < 3 then
                (if n_entries \<noteq> 2 then Inl ELOG_ERROR
                 else
                   (let (i1, i2) = (if allisequal then (0, 1) else (seed_left, seed_right));
                        fp1 = raw_vec ! i1; fp2 = raw_vec ! i2;
                        ul = (if leaf_split then seed_key fp1 (songlen fp1) else union_of fp1);
                        ur = (if leaf_split then seed_key fp2 (songlen fp2) else union_of fp2)
                    in Inr \<lparr> spl_left = [i1 + 1], spl_nleft = 1, spl_ldatum = ul,
                             spl_right = [i2 + 1], spl_nright = 1, spl_rdatum = ur \<rparr>))
              else
                (let n_matches = (n_entries * (n_entries - 1)) div 2;
                     blank = replicate n_matches \<lparr> ix1 = 0, ix2 = 0, songlen_diff = 0, val = 0 \<rparr>
                 in if allisequal then
                      (let sorted = qs (pair_matches leaf_split raw_vec)
                       in if val (sorted ! (n_matches - 1)) > 0.4
                          then Inr (split_of (general_split qs junk leaf_split raw_vec sorted
                                      (ix1 (sorted ! 0)) (ix2 (sorted ! 0)) min_sl max_sl))
                          else Inr (split_of (equal_split junk leaf_split raw_vec min_sl max_sl)))
                    else Inr (split_of (general_split qs junk leaf_split raw_vec blank
                                seed_left seed_right min_sl max_sl)))))"

subsection \<open>same\<close>

text \<open>
  The key as it lies in memory on the 64-bit target: the 8-byte \<open>cprint_len\<close>, the
  three 4-byte header fields, \<open>r\<close>, \<open>dom\<close>, the two bytes of padding that align
  \<open>cprint\<close> (their content is whatever the buffer holds, so it is a parameter) and
  the codewords.  \<^verbatim>\<open>sizeof(FPrint)\<close> is 440.
\<close>

definition bytes64 :: "64 word \<Rightarrow> 8 word list" where
  "bytes64 w = map (\<lambda>i. ucast (drop_bit (8 * i) w)) [0..<8]"

definition fp_image :: "8 word list \<Rightarrow> FPrintUnion \<Rightarrow> 8 word list" where
  "fp_image pad u =
     bytes64 (u_cprint_len u) @ bytes32 [min_songlen u, u_bit_rate u, max_songlen u]
     @ u_r u @ u_dom u @ pad @ bytes32 (u_cprint u)"

definition CALC_FP_SIZE :: "64 word \<Rightarrow> nat" where
  "CALC_FP_SIZE n = 440 + (unat (max_st n 1) - 1) * 4"

text \<open>\<^verbatim>\<open>memcmp\<close> over the first \<open>n\<close> bytes: the sign of the first difference.\<close>

fun memcmp :: "8 word list \<Rightarrow> 8 word list \<Rightarrow> nat \<Rightarrow> int" where
  "memcmp (x # xs) (y # ys) (Suc n) =
     (if x < y then - 1 else if y < x then 1 else memcmp xs ys n)"
| "memcmp _ _ _ = 0"

definition fprint_same :: "8 word list \<Rightarrow> FPrintUnion \<Rightarrow> 8 word list \<Rightarrow> FPrintUnion \<Rightarrow> bool" where
  "fprint_same pad1 key_fp1 pad2 leaf_key_fp2 =
     (if u_cprint_len leaf_key_fp2 = u_cprint_len key_fp1
      then memcmp (fp_image pad2 leaf_key_fp2) (fp_image pad1 key_fp1)
             (CALC_FP_SIZE (u_cprint_len key_fp1)) \<noteq> 0
      else False)"

section \<open>Auxiliary notions for the proofs\<close>

text \<open>The number of compared positions at which the lowest set bits agree, as a 32-bit sum.\<close>

definition low_bit_sum :: "32 word list \<Rightarrow> 32 word list \<Rightarrow> nat \<Rightarrow> nat \<Rightarrow> 32 word" where
  "low_bit_sum cp1 cp2 p q = (\<Sum>k\<leftarrow>[p..<q]. cmp_low_bit (cp1 ! k) (cp2 ! k))"

text \<open>
  The compared positions at which both codewords are zero, and the other
  positions at which the two codewords have the same lowest set bit (\<open>x AND - x\<close>
  is the lowest set bit of \<open>x\<close> alone).
\<close>

definition zero_pairs :: "32 word list \<Rightarrow> 32 word list \<Rightarrow> nat \<Rightarrow> nat" where
  "zero_pairs cp1 cp2 n = length (filter (\<lambda>k. cp1 ! k = 0 \<and> cp2 ! k = 0) [0..<n])"

definition low_bit_pairs :: "32 word list \<Rightarrow> 32 word list \<Rightarrow> nat \<Rightarrow> nat" where
  "low_bit_pairs cp1 cp2 n =
     length (filter (\<lambda>k. \<not> (cp1 ! k = 0 \<and> cp2 ! k = 0) \<and>
                          cp1 ! k AND - (cp1 ! k) = cp2 ! k AND - (cp2 ! k)) [0..<n])"



text \<open>Only the counter of lane value 0 has been touched.\<close>

definition rdiff_low_only :: "32 word list \<Rightarrow> bool" where
  "rdiff_low_only rdiff \<longleftrightarrow> length rdiff = 4 \<and> rdiff ! 1 = 0 \<and> rdiff ! 2 = 0 \<and> rdiff ! 3 = 0"

text \<open>Sample records: every byte of \<open>r\<close> and \<open>dom\<close> is \<open>b\<close>, the codewords are \<open>cp\<close>.\<close>

definition ex_fp :: "32 word \<Rightarrow> 8 word \<Rightarrow> 32 word list \<Rightarrow> FPrint" where
  "ex_fp sl b cp =
     \<lparr> cprint_len = of_nat (length cp), songlen = sl, bit_rate = 128, num_errors = 0,
       r = replicate 348 b, dom_fp = replicate 66 b, cprint = cp \<rparr>"

definition ex_union :: "32 word \<Rightarrow> 32 word \<Rightarrow> 8 word \<Rightarrow> 32 word list \<Rightarrow> FPrintUnion" where
  "ex_union lo hi b cp =
     \<lparr> u_cprint_len = of_nat (length cp), min_songlen = lo, u_bit_rate = 128, max_songlen = hi,
       u_r = replicate 348 b, u_dom = replicate 66 b, u_cprint = cp \<rparr>"

text \<open>The sizes of the two sides of a split, and the matches of the two seeds.\<close>

definition split_counts :: "error + GIST_SPLITVEC \<Rightarrow> (nat \<times> nat) option" where
  "split_counts res = (case res of Inl err \<Rightarrow> None | Inr v \<Rightarrow> Some (spl_nleft v, spl_nright v))"

definition is_seed :: "nat \<Rightarrow> nat \<Rightarrow> Match \<Rightarrow> bool" where
  "is_seed seed_left seed_right m \<longleftrightarrow> ix1 m = seed_left \<or> ix1 m = seed_right"

text \<open>
  The text form written out: the header, the two hex blocks, and the codewords
  separated by single spaces and closed by a parenthesis.
\<close>

definition hex_text :: "8 word list \<Rightarrow> string" where
  "hex_text bs = concat (map fmt_02X bs)"

definition cp_text :: "32 word list \<Rightarrow> string" where
  "cp_text cs = butlast (concat (map (\<lambda>c. fmt_d c @ '' '') cs)) @ '')''"

definition canonical_text :: "FPrint \<Rightarrow> string" where
  "canonical_text x =
     BASEFMT (songlen x) (bit_rate x) (num_errors x)
     @ hex_text (r x) @ '','' @ hex_text (dom_fp x) @ '','' @ cp_text (cprint x)"

definition spaced :: "32 word list \<Rightarrow> string" where
  "spaced cs = concat (map (\<lambda>c. fmt_d c @ '' '') cs)"

section \<open>Verification\<close>

subsection \<open>The bit-position correlator sums the compared prefix\<close>

lemma min_st_eq: "min_st x y = min x y"
  by (auto simp: min_st_def min_def xor.assoc)

lemma max_st_eq: "max_st x y = max x y"
  by (auto simp: max_st_def max_def xor.assoc)

lemma min_u32_eq: "min_u32 x y = min x y"
  by (auto simp: min_u32_def min_def xor.assoc)

lemma max_u32_eq: "max_u32 x y = max x y"
  by (auto simp: max_u32_def max_def xor.assoc)


lemma low_bit_sum_step:
  "p \<le> q \<Longrightarrow> low_bit_sum cp1 cp2 p (Suc q) = low_bit_sum cp1 cp2 p q + cmp_low_bit (cp1 ! q) (cp2 ! q)"
  by (simp add: low_bit_sum_def)

lemma low_bit_sum_first:
  "p < q \<Longrightarrow> low_bit_sum cp1 cp2 p q = cmp_low_bit (cp1 ! p) (cp2 ! p) + low_bit_sum cp1 cp2 (Suc p) q"
  by (simp add: low_bit_sum_def upt_conv_Cons)

lemma low_bit_sum_empty: "low_bit_sum cp1 cp2 p p = 0"
  by (simp add: low_bit_sum_def)

lemma chromab_rem_sum:
  "chromab_rem cp1 cp2 n p sm = sm + low_bit_sum cp1 cp2 p (p + n)"
proof (induction n arbitrary: p sm)
  case 0
  show ?case by (simp add: low_bit_sum_empty)
next
  case (Suc n)
  have "low_bit_sum cp1 cp2 p (p + Suc n)
      = cmp_low_bit (cp1 ! p) (cp2 ! p) + low_bit_sum cp1 cp2 (Suc p) (Suc p + n)"
    by (subst low_bit_sum_first) simp_all
  with Suc show ?case by (simp add: add.assoc)
qed

lemma low_bit_sum_append:
  "p \<le> q \<Longrightarrow> q \<le> t \<Longrightarrow>
   low_bit_sum cp1 cp2 p t = low_bit_sum cp1 cp2 p q + low_bit_sum cp1 cp2 q t"
  by (induction t) (auto simp: low_bit_sum_empty low_bit_sum_step le_Suc_eq add.assoc)

lemma low_bit_sum_four:
  "low_bit_sum cp1 cp2 p (p + 4 * Suc n)
        = cmp_low_bit (cp1 ! p) (cp2 ! p)
          + (cmp_low_bit (cp1 ! (p + 1)) (cp2 ! (p + 1))
          + (cmp_low_bit (cp1 ! (p + 2)) (cp2 ! (p + 2))
          + (cmp_low_bit (cp1 ! (p + 3)) (cp2 ! (p + 3))
          + low_bit_sum cp1 cp2 (p + 4) (p + 4 + 4 * n))))"
  by (simp add: low_bit_sum_first numeral_eq_Suc)

lemma chromab_loop_sum:
  "chromab_loop cp1 cp2 i e p sm =
     (p + 4 * (e - i), sm + low_bit_sum cp1 cp2 p (p + 4 * (e - i)))"
proof (induction cp1 cp2 i e p sm rule: chromab_loop.induct)
  case (1 cp1 cp2 i e p sm)
  show ?case
  proof (cases "i < e")
    case False
    then show ?thesis by (simp add: low_bit_sum_empty chromab_loop.simps)
  next
    case True
    define n where "n = e - (i + 1)"
    have e: "e - i = Suc n" using True by (simp add: n_def)
    have "chromab_loop cp1 cp2 i e p sm =
        chromab_loop cp1 cp2 (i + 1) e (p + 4)
          (sm + cmp_low_bit (cp1 ! p) (cp2 ! p)
              + cmp_low_bit (cp1 ! (p + 1)) (cp2 ! (p + 1))
              + cmp_low_bit (cp1 ! (p + 2)) (cp2 ! (p + 2))
              + cmp_low_bit (cp1 ! (p + 3)) (cp2 ! (p + 3)))"
      using True by (subst chromab_loop.simps) simp
    also note 1(1)[OF True]
    finally show ?thesis
      unfolding e low_bit_sum_four n_def [symmetric]
      by (simp add: add.assoc)
  qed
qed

lemma match_chromab_sum:
  "match_chromab cp1 l1 cp2 l2 =
    (let n = unat (min l1 l2); sm = low_bit_sum cp1 cp2 0 n
     in if n = 0 \<or> sm = 0 then 0 else real (unat sm) / real (unat (max l1 l2)))"
proof -
  define n where "n = unat (min l1 l2)"
  have "4 * (n div 4) + n mod 4 = n" by simp
  moreover have "low_bit_sum cp1 cp2 0 (4 * (n div 4) + n mod 4)
     = low_bit_sum cp1 cp2 0 (4 * (n div 4))
       + low_bit_sum cp1 cp2 (4 * (n div 4)) (4 * (n div 4) + n mod 4)"
    by (rule low_bit_sum_append) simp_all
  ultimately have "low_bit_sum cp1 cp2 0 (4 * (n div 4))
       + low_bit_sum cp1 cp2 (4 * (n div 4)) (4 * (n div 4) + n mod 4) = low_bit_sum cp1 cp2 0 n"
    by simp
  then show ?thesis
    by (simp add: match_chromab_def Let_def chromab_loop_sum chromab_rem_sum min_st_eq max_st_eq
        n_def [symmetric])
qed

lemma cmp_low_bit_refl: "cmp_low_bit x x = 1"
  by (simp add: cmp_low_bit_def)


lemma low_bit_sum_all:
  "p \<le> q \<Longrightarrow> \<forall>k. p \<le> k \<and> k < q \<longrightarrow> cmp_low_bit (cp1 ! k) (cp2 ! k) = 1 \<Longrightarrow>
   low_bit_sum cp1 cp2 p q = of_nat (q - p)"
  by (induction q) (auto simp: low_bit_sum_empty low_bit_sum_step le_Suc_eq Suc_diff_le)

lemma match_chromab_all:
  assumes "0 < l" "l < 2 ^ 32" "\<forall>k<unat l. cmp_low_bit (cp1 ! k) (cp2 ! k) = 1"
  shows "match_chromab cp1 l cp2 l = 1"
proof -
  have n: "unat l < 2 ^ 32" "0 < unat l"
    using assms by (simp_all add: word_less_nat_alt unat_gt_0)
  have u: "unat (of_nat (unat l) :: 32 word) = unat l"
    using n by (simp add: of_nat_inverse)
  have nz: "(of_nat (unat l) :: 32 word) \<noteq> 0"
    using n u by (metis less_numeral_extra(3) unat_0)
  have rz: "real (unat l) \<noteq> 0"
    using assms(1) by (simp add: unsigned_eq_0_iff)
  have ur: "real (unat (of_nat (unat l) :: 32 word)) = real (unat l)"
    by (simp only: u)
  have sm: "low_bit_sum cp1 cp2 0 (unat l) = of_nat (unat l - 0)"
    by (rule low_bit_sum_all) (use assms(3) in simp_all)
  have "match_chromab cp1 l cp2 l = real (unat l) / real (unat l)"
    using n(2) nz ur by (simp add: match_chromab_sum sm Let_def)
  then show ?thesis
    using rz by simp
qed

lemma low_bit_sum_pairs:
  "low_bit_sum cp1 cp2 0 n = of_nat (zero_pairs cp1 cp2 n + low_bit_pairs cp1 cp2 n)"
proof (induction n)
  case 0
  show ?case by (simp add: low_bit_sum_empty zero_pairs_def low_bit_pairs_def)
next
  case (Suc n)
  have "low_bit_sum cp1 cp2 0 (Suc n) = low_bit_sum cp1 cp2 0 n + cmp_low_bit (cp1 ! n) (cp2 ! n)"
    by (rule low_bit_sum_step) simp
  with Suc show ?case
    by (auto simp: zero_pairs_def low_bit_pairs_def cmp_low_bit_def)
qed

subsection \<open>Word-wise OR is byte-wise OR\<close>

lemma le32_byte0: "ucast (le32 b0 b1 b2 b3) = b0"
  by (rule bit_word_eqI) (auto simp: le32_def bit_simps dest: bit_imp_le_length)

lemma le32_byte1: "ucast (drop_bit 8 (le32 b0 b1 b2 b3)) = b1"
  by (rule bit_word_eqI) (auto simp: le32_def bit_simps dest: bit_imp_le_length)

lemma le32_byte2: "ucast (drop_bit 16 (le32 b0 b1 b2 b3)) = b2"
  by (rule bit_word_eqI) (auto simp: le32_def bit_simps dest: bit_imp_le_length)

lemma le32_byte3: "ucast (drop_bit 24 (le32 b0 b1 b2 b3)) = b3"
  by (rule bit_word_eqI) (auto simp: le32_def bit_simps dest: bit_imp_le_length)

lemma le32_or: "le32 a0 a1 a2 a3 OR le32 b0 b1 b2 b3 = le32 (a0 OR b0) (a1 OR b1) (a2 OR b2) (a3 OR b3)"
  by (rule bit_word_eqI) (auto simp: le32_def bit_simps dest: bit_imp_le_length)

lemma le16_byte0: "ucast (le16 b0 b1) = b0"
  by (rule bit_word_eqI) (auto simp: le16_def bit_simps dest: bit_imp_le_length)

lemma le16_byte1: "ucast (drop_bit 8 (le16 b0 b1)) = b1"
  by (rule bit_word_eqI) (auto simp: le16_def bit_simps dest: bit_imp_le_length)

lemma le16_or: "le16 a0 a1 OR le16 b0 b1 = le16 (a0 OR b0) (a1 OR b1)"
  by (rule bit_word_eqI) (auto simp: le16_def bit_simps dest: bit_imp_le_length)

lemma length_4_Suc:
  assumes "length xs = 4 * Suc n"
  obtains b0 b1 b2 b3 xs' where "xs = b0 # b1 # b2 # b3 # xs'" "length xs' = 4 * n"
proof -
  from assms obtain b0 t0 where 0: "xs = b0 # t0" "length t0 = 3 + 4 * n" by (cases xs) auto
  then obtain b1 t1 where 1: "t0 = b1 # t1" "length t1 = 2 + 4 * n" by (cases t0) auto
  then obtain b2 t2 where 2: "t1 = b2 # t2" "length t2 = 1 + 4 * n" by (cases t1) auto
  then obtain b3 t3 where 3: "t2 = b3 # t3" "length t3 = 4 * n" by (cases t2) auto
  from 0 1 2 3 that show thesis by simp
qed

lemma length_words32: "length xs = 4 * n \<Longrightarrow> length (words32 xs) = n"
proof (induction n arbitrary: xs)
  case 0 then show ?case by simp
next
  case (Suc n)
  from Suc.prems obtain b0 b1 b2 b3 xs' where "xs = b0 # b1 # b2 # b3 # xs'" "length xs' = 4 * n"
    by (rule length_4_Suc)
  with Suc.IH show ?case by simp
qed

lemma words32_append2: "length xs = 4 * n \<Longrightarrow> words32 (xs @ [a, b]) = words32 xs"
proof (induction n arbitrary: xs)
  case 0 then show ?case by simp
next
  case (Suc n)
  from Suc.prems obtain b0 b1 b2 b3 xs' where "xs = b0 # b1 # b2 # b3 # xs'" "length xs' = 4 * n"
    by (rule length_4_Suc)
  with Suc.IH show ?case by simp
qed

lemma bytes32_words32_or:
  "length xs = 4 * n \<Longrightarrow> length ys = 4 * n \<Longrightarrow>
   bytes32 (map2 (OR) (words32 xs) (words32 ys)) = map2 (OR) xs ys"
proof (induction n arbitrary: xs ys)
  case 0 then show ?case by simp
next
  case (Suc n)
  from Suc.prems(1) obtain a0 a1 a2 a3 xs' where xs: "xs = a0 # a1 # a2 # a3 # xs'" "length xs' = 4 * n"
    by (rule length_4_Suc)
  from Suc.prems(2) obtain b0 b1 b2 b3 ys' where ys: "ys = b0 # b1 # b2 # b3 # ys'" "length ys' = 4 * n"
    by (rule length_4_Suc)
  show ?case
    using Suc.IH [OF xs(2) ys(2)]
    by (simp add: xs(1) ys(1) le32_or le32_byte0 le32_byte1 le32_byte2 le32_byte3)
qed

lemma map_upt_nth2:
  "length xs = n \<Longrightarrow> length ys = n \<Longrightarrow> map (\<lambda>i. f (xs ! i) (ys ! i)) [0..<n] = map2 f xs ys"
  by (rule nth_equalityI) simp_all

lemma merge_r_eq:
  assumes "length ru = R_SIZE" "length ra = R_SIZE"
  shows "merge_r ru ra = map2 (OR) ru ra"
proof -
  have l: "length ru = 4 * 87" "length ra = 4 * 87"
    using assms by (simp_all add: R_SIZE_def)
  have n: "R_SIZE32 = 87" by (simp add: R_SIZE32_def R_SIZE_def)
  show ?thesis
    unfolding merge_r_def Let_def n
    by (simp only: map_upt_nth2 [OF length_words32 [OF l(1)] length_words32 [OF l(2)]]
        bytes32_words32_or [OF l])
qed

lemma split_last2:
  assumes "length xs = Suc (Suc n)"
  shows "xs = take n xs @ [xs ! n, xs ! Suc n]"
proof -
  have a: "xs ! n # drop (Suc n) xs = drop n xs"
    by (rule Cons_nth_drop_Suc) (simp add: assms)
  have b: "xs ! Suc n # drop (Suc (Suc n)) xs = drop (Suc n) xs"
    by (rule Cons_nth_drop_Suc) (simp add: assms)
  have c: "drop (Suc (Suc n)) xs = []"
    using assms by simp
  have "drop n xs = [xs ! n, xs ! Suc n]"
    unfolding a [symmetric] b [symmetric] c ..
  then show ?thesis
    by (metis append_take_drop_id)
qed

lemma split_last2_66:
  assumes "length xs = 66"
  shows "xs = take 64 xs @ [xs ! 64, xs ! 65]"
proof -
  have "length xs = Suc (Suc 64)" using assms by simp
  from split_last2 [OF this] show ?thesis by simp
qed

lemma merge_dom_eq:
  assumes "length du = DOM_SIZE" "length da = DOM_SIZE"
  shows "merge_dom du da = map2 (OR) du da"
proof -
  have n: "DOM_LEN32 = 16" "DOM_END16 = 32"
    by (simp_all add: DOM_LEN32_def DOM_END16_def DOM_SIZE_def)
  define du' where "du' = take 64 du"
  define da' where "da' = take 64 da"
  have l: "length du' = 4 * 16" "length da' = 4 * 16"
    using assms by (simp_all add: du'_def da'_def DOM_SIZE_def)
  have du: "du = du' @ [du ! 64, du ! 65]"
    unfolding du'_def by (rule split_last2_66) (use assms(1) in \<open>simp add: DOM_SIZE_def\<close>)
  have da: "da = da' @ [da ! 64, da ! 65]"
    unfolding da'_def by (rule split_last2_66) (use assms(2) in \<open>simp add: DOM_SIZE_def\<close>)
  have w: "words32 du = words32 du'" "words32 da = words32 da'"
    by (subst du, rule words32_append2 [OF l(1)]) (subst da, rule words32_append2 [OF l(2)])
  have "merge_dom du da = map2 (OR) du' da' @ [du ! 64 OR da ! 64, du ! 65 OR da ! 65]"
    unfolding merge_dom_def Let_def n w load16_def
    by (simp add: map_upt_nth2 [OF length_words32 [OF l(1)] length_words32 [OF l(2)]]
        bytes32_words32_or [OF l] le16_or bytes16_def le16_byte0 le16_byte1)
  also have "\<dots> = map2 (OR) (du' @ [du ! 64, du ! 65]) (da' @ [da ! 64, da ! 65])"
    using l by simp
  finally show ?thesis using du da by simp
qed

lemma pop32_0: "pop32 0 = 0" by (simp add: pop32_def)
lemma pop16_0: "pop16 0 = 0" by (simp add: pop16_def)

subsection \<open>A record compared with itself\<close>


lemma rdiff_incr_0: "rdiff_low_only rd \<Longrightarrow> rdiff_low_only (rdiff_incr rd 0)"
  by (simp add: rdiff_low_only_def rdiff_incr_def)

lemma rdiff_fooid32_loop_0: "rdiff_low_only rd \<Longrightarrow> rdiff_low_only (rdiff_fooid32_loop 0 i rd)"
proof (induction "0 :: 32 word" i rd rule: rdiff_fooid32_loop.induct)
  case (1 i rd)
  show ?case
  proof (cases "i < 16")
    case True
    with 1 show ?thesis
      by (subst rdiff_fooid32_loop.simps) (simp add: rdiff_incr_0)
  next
    case False
    with 1 show ?thesis
      by (subst rdiff_fooid32_loop.simps) simp
  qed
qed

lemma rdiff_fooid32_0: "rdiff_low_only rd \<Longrightarrow> rdiff_low_only (rdiff_fooid32 0 rd)"
  by (simp add: rdiff_fooid32_def rdiff_fooid32_loop_0 rdiff_incr_0)

lemma fold_rdiff_0: "rdiff_low_only rd \<Longrightarrow> rdiff_low_only (fold (\<lambda>i. rdiff_fooid32 0) is rd)"
  by (induction "is" arbitrary: rd) (simp_all add: rdiff_fooid32_0)

lemma weigh_rdiff_low_only: "rdiff_low_only rd \<Longrightarrow> weigh_rdiff rd = 0"
  by (simp add: rdiff_low_only_def weigh_rdiff_def)

lemma rdiff_low_only_init: "rdiff_low_only [0, 0, 0, 0]"
  by (simp add: rdiff_low_only_def)

lemma fooid_dom_loop_eq_0: "a = b \<Longrightarrow> d = 0 \<Longrightarrow> fooid_dom_loop a b i d = 0"
proof (induction a b i d rule: fooid_dom_loop.induct)
  case (1 a b i d)
  show ?case
  proof (cases "i < DOM_LEN32")
    case True
    with 1 show ?thesis
      by (subst fooid_dom_loop.simps) (simp add: pop32_0)
  next
    case False
    with 1 show ?thesis
      by (subst fooid_dom_loop.simps) simp
  qed
qed

lemma fooid_dom_loop_same: "fooid_dom_loop a a i 0 = 0"
  by (rule fooid_dom_loop_eq_0) simp_all

lemma fooid_conf_0: "fooid_conf 0 0 = 1"
  by (simp add: fooid_conf_def)

lemma match_fooid_fp_same: "match_fooid_fp ra da ra da = 1"
  by (simp add: match_fooid_fp_def Let_def fooid_dom_loop_same pop16_0 fooid_conf_0
      weigh_rdiff_low_only [OF fold_rdiff_0 [OF rdiff_low_only_init]])

lemma round_float_0: "round_float 0 = 0"
  by (simp add: round_float_def float_exp.simps [of 0])

lemma match_cpfm_self_value:
  assumes "valid_fprint a"
  shows "match_cpfm (Some a) (Some a) = 1249293 / 1248900"
proof -
  have l: "0 < cprint_len a" "cprint_len a < 2 ^ 32"
    using assms unfolding valid_fprint_def wf_fprint_def
    by (auto simp: word_less_nat_alt word_le_nat_alt)
  have cp: "match_chromab (cprint a) (cprint_len a) (cprint a) (cprint_len a) = 1"
    by (rule match_chromab_all [OF l]) (simp add: cmp_low_bit_refl)
  have g: "\<not> 0 > (13421773 / 134217728) * real (round_float (unat (songlen a)))"
    by simp
  show ?thesis
    using g by (simp add: Let_def match_fooid_fp_same cp round_float_0)
qed

subsection \<open>Coverage after a merge\<close>

lemma valid_lengths:
  assumes "wf_union u" "wf_fprint a" "cprint_len a \<le> u_cprint_len u"
  shows "length (u_r u) = R_SIZE" "length (r a) = R_SIZE"
    "length (u_dom u) = DOM_SIZE" "length (dom_fp a) = DOM_SIZE"
    "unat (cprint_len a) \<le> length (u_cprint u)"
proof -
  show "length (u_r u) = R_SIZE" "length (u_dom u) = DOM_SIZE"
    using assms(1) by (simp_all add: wf_union_def)
  show "length (r a) = R_SIZE" "length (dom_fp a) = DOM_SIZE"
    using assms(2) by (simp_all add: wf_fprint_def)
  have "length (u_cprint u) = unat (u_cprint_len u)"
    using assms(1) by (simp add: wf_union_def)
  moreover have "unat (cprint_len a) \<le> unat (u_cprint_len u)"
    using assms(3) by (simp add: word_le_nat_alt)
  ultimately show "unat (cprint_len a) \<le> length (u_cprint u)" by simp
qed

lemma word_and_or_absorb: "(a :: 'a::len word) AND (u OR a) = a"
  by (rule bit_word_eqI) (auto simp: bit_simps)

lemma word_or_covered:
  assumes "(a :: 'a::len word) AND u = a"
  shows "u OR a = u"
proof -
  have "u OR (a AND u) = u"
    by (rule bit_word_eqI) (auto simp: bit_simps)
  then show ?thesis
    by (simp only: assms)
qed

lemma map2_and_or:
  "length us = length as \<Longrightarrow> map2 (AND) as (map2 (OR) us (as :: 'a::len word list)) = as"
  by (induction us as rule: list_induct2) (simp_all add: word_and_or_absorb)

lemma map2_or_covered:
  "length us = length as \<Longrightarrow> map2 (AND) as us = as \<Longrightarrow> map2 (OR) us (as :: 'a::len word list) = us"
  by (induction us as rule: list_induct2) (simp_all add: word_or_covered)

lemma merge_cprint_nth:
  "k < n \<Longrightarrow> n \<le> length cu \<Longrightarrow> merge_cprint cu ca n ! k = cu ! k OR ca ! k"
  by (simp add: merge_cprint_def nth_append)

lemma merge_cprint_covered:
  assumes "n \<le> length cu" "\<forall>k<n. ca ! k AND cu ! k = ca ! k"
  shows "merge_cprint cu ca n = cu"
proof (rule nth_equalityI)
  show "length (merge_cprint cu ca n) = length cu"
    using assms(1) by (simp add: merge_cprint_def)
next
  fix i assume "i < length (merge_cprint cu ca n)"
  then have i: "i < length cu" using assms(1) by (simp add: merge_cprint_def)
  show "merge_cprint cu ca n ! i = cu ! i"
  proof (cases "i < n")
    case True
    with assms show ?thesis by (simp add: merge_cprint_nth word_or_covered)
  next
    case False
    with i assms(1) show ?thesis by (simp add: merge_cprint_def nth_append)
  qed
qed


lemma ex_union_sel [simp]:
  "u_cprint_len (ex_union lo hi b cp) = of_nat (length cp)"
  "min_songlen (ex_union lo hi b cp) = lo"
  "max_songlen (ex_union lo hi b cp) = hi"
  "u_r (ex_union lo hi b cp) = replicate 348 b"
  "u_dom (ex_union lo hi b cp) = replicate 66 b"
  "u_cprint (ex_union lo hi b cp) = cp"
  by (simp_all add: ex_union_def)

lemma ex_fp_sel [simp]:
  "cprint_len (ex_fp sl b cp) = of_nat (length cp)"
  "songlen (ex_fp sl b cp) = sl"
  "r (ex_fp sl b cp) = replicate 348 b"
  "dom_fp (ex_fp sl b cp) = replicate 66 b"
  "cprint (ex_fp sl b cp) = cp"
  by (simp_all add: ex_fp_def)


subsection \<open>Keys with the same rough and dominant vectors\<close>




subsection \<open>Keys covered by another key\<close>













subsection \<open>Comparing key images\<close>

lemma memcmp_refl: "memcmp xs xs n = 0"
proof (induction n arbitrary: xs)
  case 0
  show ?case by (cases xs) simp_all
next
  case (Suc n)
  then show ?case by (cases xs) simp_all
qed

lemma memcmp_eq_0_iff:
  "n \<le> length xs \<Longrightarrow> n \<le> length ys \<Longrightarrow> memcmp xs ys n = 0 \<longleftrightarrow> take n xs = take n ys"
proof (induction xs ys n rule: memcmp.induct)
  case (1 x xs y ys n)
  then show ?case by (auto simp: not_less)
qed simp_all

lemma length_bytes32: "length (bytes32 ws) = 4 * length ws"
  by (induction ws) simp_all

lemma length_fp_image:
  "valid_union u \<Longrightarrow> length pad = 2 \<Longrightarrow> length (fp_image pad u) = CALC_FP_SIZE (u_cprint_len u)"
  by (auto simp: fp_image_def CALC_FP_SIZE_def valid_union_def wf_union_def length_bytes32 bytes64_def
    max_st_eq R_SIZE_def DOM_SIZE_def max_def word_le_nat_alt)

lemma fprint_same_iff:
  assumes "valid_union k1" "valid_union k2" "length pad1 = 2" "length pad2 = 2"
  shows "fprint_same pad1 k1 pad2 k2 \<longleftrightarrow>
     u_cprint_len k2 = u_cprint_len k1 \<and> fp_image pad2 k2 \<noteq> fp_image pad1 k1"
proof (cases "u_cprint_len k2 = u_cprint_len k1")
  case False
  then show ?thesis by (simp add: fprint_same_def)
next
  case True
  have l: "length (fp_image pad1 k1) = CALC_FP_SIZE (u_cprint_len k1)"
     "length (fp_image pad2 k2) = CALC_FP_SIZE (u_cprint_len k1)"
    using assms True length_fp_image by metis+
  show ?thesis
    using True l by (simp add: fprint_same_def memcmp_eq_0_iff)
qed

subsection \<open>A header that does not fit the 24-byte array\<close>

lemma digit_char_not_NUL: "d < 10 \<Longrightarrow> digit_char d \<noteq> NUL"
proof
  assume d: "d < 10" and "digit_char d = NUL"
  then have "(of_char (char_of (48 + d)) :: nat) = of_char (CHR 0x00)"
    by (simp add: digit_char_def NUL_def)
  with d show False by simp
qed

lemma digit_char_not_NUL': "d < 10 \<Longrightarrow> NUL \<noteq> digit_char d"
  using digit_char_not_NUL [of d] by auto

lemma dec_nat_no_NUL: "NUL \<notin> set (dec_nat n)"
proof (induction n rule: dec_nat.induct)
  case (1 n)
  show ?case
  proof (cases "n < 10")
    case True
    then show ?thesis
      by (subst dec_nat.simps) (simp add: digit_char_not_NUL')
  next
    case False
    have "n mod 10 < 10" by simp
    then have "NUL \<noteq> digit_char (n mod 10)" by (rule digit_char_not_NUL')
    with False 1 show ?thesis
      by (subst dec_nat.simps) auto
  qed
qed

lemma BASEFMT_no_NUL: "NUL \<notin> set (BASEFMT a b c)"
  using dec_nat_no_NUL by (auto simp: BASEFMT_def fmt_u_def NUL_def)

lemma c_string_append_NUL: "NUL \<notin> set s \<Longrightarrow> c_string (s @ NUL # t) = s"
  by (induction s) (auto simp: c_string_def)

lemma take_write_at:
  "k \<le> pos \<Longrightarrow> k \<le> length buf \<Longrightarrow> take k (write_at buf pos s) = take k buf"
  by (simp add: write_at_def min_def)

lemma length_write_at_ge:
  "k \<le> pos \<Longrightarrow> k \<le> length buf \<Longrightarrow> k \<le> length (write_at buf pos s)"
  by (simp add: write_at_def min_def)

lemma put_hex_prefix:
  assumes "k \<le> ol" "k \<le> length buf" "put_hex bs i (buf, ol) = (buf', ol')"
  shows "take k buf' = take k buf \<and> k \<le> length buf' \<and> ol \<le> ol'"
  using assms
  by (auto simp: put_hex_def snprintf_at_def take_write_at length_write_at_ge)

lemma put_cp_prefix:
  assumes "k \<le> ol" "k \<le> length buf" "put_cp cp j (buf, ol) = (buf', ol')"
  shows "take k buf' = take k buf \<and> k \<le> length buf' \<and> ol \<le> ol'"
  using assms
  by (auto simp: put_cp_def snprintf_at_def take_write_at length_write_at_ge)

lemma fold_prefix:
  assumes step: "\<And>i buf ol buf' ol'. k \<le> ol \<Longrightarrow> k \<le> length buf \<Longrightarrow> f i (buf, ol) = (buf', ol')
            \<Longrightarrow> take k buf' = take k buf \<and> k \<le> length buf' \<and> ol \<le> ol'"
  shows "k \<le> ol \<Longrightarrow> k \<le> length buf \<Longrightarrow> fold f is (buf, ol) = (buf', ol')
            \<Longrightarrow> take k buf' = take k (buf :: string) \<and> k \<le> length buf' \<and> (ol :: nat) \<le> ol'"
proof (induction "is" arbitrary: buf ol)
  case Nil
  then show ?case by simp
next
  case (Cons i "is")
  obtain b1 o1 where s1: "f i (buf, ol) = (b1, o1)" by (cases "f i (buf, ol)")
  from step [OF Cons.prems(1,2) s1] have 1: "take k b1 = take k buf" "k \<le> length b1" "ol \<le> o1"
    by simp_all
  from Cons.prems(3) s1 have "fold f is (b1, o1) = (buf', ol')" by simp
  from Cons.IH [OF _ 1(2) this] 1 Cons.prems(1) show ?case by simp
qed

lemma strncpy_at_prefix:
  "k \<le> pos \<Longrightarrow> k \<le> length buf \<Longrightarrow>
   take k (strncpy_at buf pos src n) = take k buf \<and> k \<le> length (strncpy_at buf pos src n)"
  by (simp add: strncpy_at_def take_write_at length_write_at_ge)

lemma c_string_take:
  assumes "take (Suc n) buf = s @ [NUL]" "NUL \<notin> set s" "length s = n" "n < m"
  shows "c_string (take m buf) = s"
proof -
  have "take (Suc n) (take m buf) = s @ [NUL]"
    using assms(1,4) by (simp add: min_def)
  then have "take m buf = (s @ [NUL]) @ drop (Suc n) (take m buf)"
    by (metis append_take_drop_id)
  then have "take m buf = s @ NUL # drop (Suc n) (take m buf)" by simp
  then show ?thesis
    using c_string_append_NUL [OF assms(2)] by metis
qed

lemma fprint_to_string_long_header:
  assumes "length (BASEFMT (songlen fp) (bit_rate fp) (num_errors fp)) \<ge> BASE_SIZE"
  shows "fprint_to_string (Some fp) =
           take (BASE_SIZE - 1) (BASEFMT (songlen fp) (bit_rate fp) (num_errors fp))"
proof -
  define full where "full = BASEFMT (songlen fp) (bit_rate fp) (num_errors fp)"
  define base where "base = take 23 full"
  define n where "n = unat (cprint_len fp)"
  define str_sz where "str_sz = length full + (2 * R_SIZE + 1) + (2 * DOM_SIZE + 1) + 12 * n + 2"
  have L: "24 \<le> length full" using assms by (simp add: full_def BASE_SIZE_def)
  have lb: "length base = 23" using L by (simp add: base_def)
  have nb: "NUL \<notin> set base"
    using BASEFMT_no_NUL [of "songlen fp" "bit_rate fp" "num_errors fp"]
    by (auto simp: base_def full_def dest: in_set_takeD)
  have sn: "snprintf_at (replicate BASE_SIZE NUL) 0 BASE_SIZE full = (base @ [NUL], length full)"
    using lb by (simp add: snprintf_at_def write_at_def BASE_SIZE_def base_def)
  have cb: "c_string (base @ [NUL]) = base"
    using c_string_append_NUL [OF nb, of "[]"] by simp
  define tmpstr0 where "tmpstr0 = strncpy_at (replicate str_sz NUL) 0 base str_sz"
  have sz: "24 \<le> str_sz" using L by (simp add: str_sz_def)
  have t0: "tmpstr0 = base @ replicate (str_sz - 23) NUL"
    using sz lb by (simp add: tmpstr0_def strncpy_at_def write_at_def)
  have p0: "take 24 tmpstr0 = base @ [NUL]" "24 \<le> length tmpstr0"
    using sz lb by (simp_all add: t0 numeral_eq_Suc)
  obtain tmpstr1 out_len1 where f1:
    "fold (put_hex (r fp)) [0..<R_SIZE] (tmpstr0, length full) = (tmpstr1, out_len1)"
    by (cases "fold (put_hex (r fp)) [0..<R_SIZE] (tmpstr0, length full)")
  have p1: "take 24 tmpstr1 = take 24 tmpstr0" "24 \<le> length tmpstr1" "length full \<le> out_len1"
    using fold_prefix [where f = "put_hex (r fp)", OF put_hex_prefix L p0(2) f1] by simp_all
  define tmpstr2 where "tmpstr2 = strncpy_at tmpstr1 out_len1 '','' 2"
  have p2: "take 24 tmpstr2 = take 24 tmpstr0" "24 \<le> length tmpstr2"
    using strncpy_at_prefix [of 24 out_len1 tmpstr1] p1 L by (simp_all add: tmpstr2_def)
  obtain tmpstr3 out_len3 where f3:
    "fold (put_hex (dom_fp fp)) [0..<DOM_SIZE] (tmpstr2, out_len1 + 1) = (tmpstr3, out_len3)"
    by (cases "fold (put_hex (dom_fp fp)) [0..<DOM_SIZE] (tmpstr2, out_len1 + 1)")
  have o1: "24 \<le> out_len1 + 1" using p1(3) L by simp
  have p3: "take 24 tmpstr3 = take 24 tmpstr0" "24 \<le> length tmpstr3" "out_len1 + 1 \<le> out_len3"
    using fold_prefix [where f = "put_hex (dom_fp fp)", OF put_hex_prefix o1 p2(2) f3] p2(1)
    by simp_all
  define tmpstr4 where "tmpstr4 = strncpy_at tmpstr3 out_len3 '','' 2"
  have o3: "24 \<le> out_len3" using p3(3) o1 by simp
  have p4: "take 24 tmpstr4 = take 24 tmpstr0" "24 \<le> length tmpstr4"
    using strncpy_at_prefix [of 24 out_len3 tmpstr3] p3 o3 by (simp_all add: tmpstr4_def)
  obtain tmpstr5 out_len5 where f5:
    "fold (put_cp (cprint fp)) [0..<n] (tmpstr4, out_len3 + 1) = (tmpstr5, out_len5)"
    by (cases "fold (put_cp (cprint fp)) [0..<n] (tmpstr4, out_len3 + 1)")
  have o3': "24 \<le> out_len3 + 1" using o3 by simp
  have p5: "take 24 tmpstr5 = take 24 tmpstr0" "24 \<le> length tmpstr5" "out_len3 + 1 \<le> out_len5"
    using fold_prefix [where f = "put_cp (cprint fp)", OF put_cp_prefix o3' p4(2) f5] p4(1)
    by simp_all
  define tmpstr6 where "tmpstr6 = strncpy_at tmpstr5 (out_len5 - 1) '')'' 2"
  have o5: "24 \<le> out_len5 - 1" using p5(3) o3 by simp
  have p6: "take 24 tmpstr6 = base @ [NUL]"
    using strncpy_at_prefix [of 24 "out_len5 - 1" tmpstr5] p5 o5 p0(1) by (simp add: tmpstr6_def)
  have "c_string (take (out_len5 - 1 + 1 + 1) tmpstr6) = base"
    by (rule c_string_take [where n = 23]) (use p6 nb lb o5 in simp_all)
  moreover have "fprint_to_string (Some fp) = c_string (take (out_len5 - 1 + 1 + 1) tmpstr6)"
    by (simp only: fprint_to_string_def option.case Let_def full_def [symmetric]
        n_def [symmetric] sn prod.case cb str_sz_def [symmetric] tmpstr0_def [symmetric]
        f1 tmpstr2_def [symmetric] f3 tmpstr4_def [symmetric] f5 tmpstr6_def [symmetric])
  ultimately show ?thesis
    by (simp add: base_def full_def BASE_SIZE_def)
qed

lemma dec_nat_digit: "n < 10 \<Longrightarrow> dec_nat n = [digit_char n]"
  by (subst dec_nat.simps) simp
lemma dec_nat_step: "10 \<le> n \<Longrightarrow> dec_nat n = dec_nat (n div 10) @ [digit_char (n mod 10)]"
  by (subst dec_nat.simps) simp
lemma digit_char_values:
  "digit_char 0 = CHR ''0''" "digit_char 1 = CHR ''1''" "digit_char 2 = CHR ''2''"
  "digit_char 3 = CHR ''3''" "digit_char 4 = CHR ''4''" "digit_char 5 = CHR ''5''"
  "digit_char 6 = CHR ''6''" "digit_char 7 = CHR ''7''" "digit_char 8 = CHR ''8''"
  "digit_char 9 = CHR ''9''" "digit_char (Suc 0) = CHR ''1''"
  by code_simp+
lemma b: "BASEFMT 1000000000 1000000000 0 = ''(1000000000,1000000000,0,''"
  by (simp add: BASEFMT_def fmt_u_def dec_nat_digit dec_nat_step digit_char_values)
lemma ex_fp_upd_sel [simp]:
  "songlen (ex_fp sl b cp \<lparr> bit_rate := br \<rparr>) = sl"
  "bit_rate (ex_fp sl b cp \<lparr> bit_rate := br \<rparr>) = br"
  "num_errors (ex_fp sl b cp \<lparr> bit_rate := br \<rparr>) = 0"
  by (simp_all add: ex_fp_def)


subsection \<open>The text form of a record with a short header parses back\<close>

paragraph \<open>Characters of the formatted text\<close>

lemma of_char_digit_char: "d < 10 \<Longrightarrow> (of_char (digit_char d) :: nat) = 48 + d"
  by (simp add: digit_char_def)

lemma is_digit_digit_char: "d < 10 \<Longrightarrow> is_digit (digit_char d)"
  by (simp add: is_digit_def of_char_digit_char)

lemma digit_val_digit_char: "d < 10 \<Longrightarrow> digit_val (digit_char d) = d"
  by (simp add: digit_val_def of_char_digit_char)

lemma of_char_hex_char: "d < 16 \<Longrightarrow> (of_char (hex_char d) :: nat) = (if d < 10 then 48 + d else 55 + d)"
  by (simp add: hex_char_def)

lemma hex_val_hex_char: "d < 16 \<Longrightarrow> hex_val (hex_char d) = Some d"
  by (auto simp: hex_val_def of_char_hex_char Let_def)

lemma hex_char_not_space: "d < 16 \<Longrightarrow> \<not> is_space (hex_char d)"
  by (auto simp: is_space_def of_char_hex_char)

lemma hex_char_not_NUL: "d < 16 \<Longrightarrow> hex_char d \<noteq> NUL"
proof
  assume d: "d < 16" and "hex_char d = NUL"
  then have "(of_char (hex_char d) :: nat) = of_char (CHR 0x00)"
    by (simp add: NUL_def)
  with d show False by (simp add: of_char_hex_char split: if_splits)
qed

lemma digit_not_space: "is_digit c \<Longrightarrow> \<not> is_space c"
  by (auto simp: is_digit_def is_space_def)

lemma is_digit_consts [simp]:
  "\<not> is_digit CHR '',''" "\<not> is_digit CHR '' ''" "\<not> is_digit CHR '')''" "\<not> is_digit CHR ''-''"
  "\<not> is_digit CHR ''(''"
  by (simp_all add: is_digit_def)

lemma digit_not_consts:
  "is_digit c \<Longrightarrow> c \<noteq> CHR '','' \<and> c \<noteq> CHR '' '' \<and> c \<noteq> CHR '')'' \<and> c \<noteq> CHR ''-'' \<and> c \<noteq> NUL"
  by (auto simp: is_digit_def NUL_def)

paragraph \<open>Decimal text\<close>

lemma dec_nat_digits: "\<forall>c\<in>set (dec_nat n). is_digit c"
proof (induction n rule: dec_nat.induct)
  case (1 n)
  show ?case
  proof (cases "n < 10")
    case True
    then show ?thesis by (subst dec_nat.simps) (simp add: is_digit_digit_char)
  next
    case False
    have "is_digit (digit_char (n mod 10))" by (rule is_digit_digit_char) simp
    with False 1 show ?thesis by (subst dec_nat.simps) auto
  qed
qed

lemma dec_nat_nonempty: "dec_nat n \<noteq> []"
  by (subst dec_nat.simps) simp

lemma dec_val_append: "dec_val (ds @ [c]) = 10 * dec_val ds + digit_val c"
  by (simp add: dec_val_def)

lemma dec_val_dec_nat: "dec_val (dec_nat n) = n"
proof (induction n rule: dec_nat.induct)
  case (1 n)
  show ?case
  proof (cases "n < 10")
    case True
    then show ?thesis
      by (subst dec_nat.simps) (simp add: dec_val_def digit_val_digit_char)
  next
    case False
    have "digit_val (digit_char (n mod 10)) = n mod 10" by (rule digit_val_digit_char) simp
    with False 1 show ?thesis
      by (subst dec_nat.simps) (simp add: dec_val_append)
  qed
qed

lemma length_dec_nat: "n < 10 ^ k \<Longrightarrow> 0 < k \<Longrightarrow> length (dec_nat n) \<le> k"
proof (induction n arbitrary: k rule: dec_nat.induct)
  case (1 n)
  show ?case
  proof (cases "n < 10")
    case True
    with 1(3) show ?thesis by (subst dec_nat.simps) simp
  next
    case False
    with 1(2) have k: "1 < k" by (cases "k = 1") (use 1(3) in auto)
    then obtain j where j: "k = Suc j" "0 < j" by (cases k) auto
    have "n div 10 < 10 ^ j" using 1(2) j by (simp add: less_mult_imp_div_less mult.commute)
    from 1(1) [OF False this j(2)] False j show ?thesis
      by (subst dec_nat.simps) simp
  qed
qed

lemma fmt_u_digits: "\<forall>c\<in>set (fmt_u w). is_digit c"
  by (simp add: fmt_u_def dec_nat_digits)

lemma digit_not_sign: "is_digit c \<Longrightarrow> \<not> is_sign c"
  by (auto simp: is_digit_def is_sign_def)

lemma scan_u_fmt_u:
  assumes "\<not> is_digit c"
  shows "scan_u (fmt_u w @ c # t) = Some (w, c # t)"
proof -
  obtain d ds where ds: "fmt_u w = d # ds"
    using dec_nat_nonempty [of "unat w"] by (cases "fmt_u w") (auto simp: fmt_u_def)
  have dig: "\<forall>x\<in>set (fmt_u w). is_digit x" by (rule fmt_u_digits)
  then have d: "is_digit d" using ds by simp
  then have "\<not> is_space d" by (rule digit_not_space)
  then have 1: "dropWhile is_space (fmt_u w @ c # t) = d # (ds @ c # t)"
    by (simp add: ds)
  have s: "\<not> is_sign d" using d by (rule digit_not_sign)
  have 2: "takeWhile is_digit (d # (ds @ c # t)) = fmt_u w"
    using dig assms takeWhile_append2 [of "fmt_u w" is_digit "c # t"] by (simp add: ds)
  have 3: "dropWhile is_digit (d # (ds @ c # t)) = c # t"
    using dig assms dropWhile_append2 [of "fmt_u w" is_digit "c # t"] by (simp add: ds)
  have 4: "dec_val (fmt_u w) = unat w"
    by (simp add: fmt_u_def dec_val_dec_nat)
  have 5: "\<not> unat w \<ge> 2 ^ 64"
    using unsigned_less [of w, where 'a = nat] by simp
  have 6: "d \<noteq> CHR ''-''"
    using s by (auto simp: is_sign_def)
  show ?thesis
    unfolding scan_u_def Let_def 1 list.case if_not_P [OF s] 2 3 4 if_not_P [OF 5] if_not_P [OF 6]
    using ds by simp
qed

lemma sscanf_base_BASEFMT: "sscanf_base (BASEFMT a b c @ t) = [a, b, c]"
  by (simp add: sscanf_base_def BASEFMT_def scan_lit_def scan_u_fmt_u)

lemma skip_commas_digits:
  "\<forall>c\<in>set ds. c \<noteq> CHR '','' \<Longrightarrow> skip_commas (Suc k) (ds @ CHR '','' # t) = skip_commas k t"
  by (induction ds) simp_all

lemma fmt_u_no_comma: "\<forall>c\<in>set (fmt_u w). c \<noteq> CHR '',''"
  using fmt_u_digits digit_not_consts by blast

lemma skip_commas_BASEFMT: "skip_commas 3 (BASEFMT a b c @ t) = Some t"
proof -
  have "skip_commas 3 (BASEFMT a b c @ t)
      = skip_commas (Suc 2) ((CHR ''('' # fmt_u a) @ CHR '','' # (fmt_u b @ CHR '','' # (fmt_u c @ CHR '','' # t)))"
    by (simp add: BASEFMT_def numeral_3_eq_3 numeral_2_eq_2)
  also have "\<dots> = skip_commas 2 (fmt_u b @ CHR '','' # (fmt_u c @ CHR '','' # t))"
    by (rule skip_commas_digits) (use fmt_u_no_comma in auto)
  also have "\<dots> = skip_commas 1 (fmt_u c @ CHR '','' # t)"
    unfolding numeral_2_eq_2 One_nat_def by (rule skip_commas_digits) (use fmt_u_no_comma in auto)
  also have "\<dots> = skip_commas 0 t"
    unfolding One_nat_def by (rule skip_commas_digits) (use fmt_u_no_comma in auto)
  finally show ?thesis by simp
qed

paragraph \<open>Hex blocks\<close>

lemma length_fmt_02X [simp]: "length (fmt_02X b) = 2"
  by (simp add: fmt_02X_def)

lemma length_hex_text [simp]: "length (hex_text bs) = 2 * length bs"
  by (induction bs) (simp_all add: hex_text_def)

lemma hex_text_Cons: "hex_text (b # bs) = fmt_02X b @ hex_text bs"
  by (simp add: hex_text_def)

lemma hex_text_append: "hex_text (as @ bs) = hex_text as @ hex_text bs"
  by (simp add: hex_text_def)

lemma byte_nibbles: "(of_nat (16 * (unat b div 16) + unat b mod 16) :: 8 word) = b"
  by simp

lemma hex_char_not_sign: "d < 16 \<Longrightarrow> \<not> is_sign (hex_char d)"
proof
  assume d: "d < 16" and "is_sign (hex_char d)"
  then have "(of_char (hex_char d) :: nat) = 45 \<or> (of_char (hex_char d) :: nat) = 43"
    by (auto simp: is_sign_def)
  with d show False by (simp add: of_char_hex_char split: if_splits)
qed

lemma hex_char_not_x: "d < 16 \<Longrightarrow> \<not> (hex_char d = CHR ''x'' \<or> hex_char d = CHR ''X'')"
proof
  assume d: "d < 16" and "hex_char d = CHR ''x'' \<or> hex_char d = CHR ''X''"
  then have "(of_char (hex_char d) :: nat) = 120 \<or> (of_char (hex_char d) :: nat) = 88"
    by auto
  with d show False by (simp add: of_char_hex_char split: if_splits)
qed

lemma scan_2hhX_fmt: "scan_2hhX (fmt_02X b @ t) = Some (b, t)"
proof -
  have h: "unat b div 16 < 16"
    using unsigned_less [of b, where 'a = nat] by simp
  have l: "unat b mod 16 < 16" by simp
  show ?thesis
    using hex_char_not_space [OF h] byte_nibbles [of b] hex_char_not_sign [OF h] hex_char_not_x [OF l]
    by (simp add: scan_2hhX_def fmt_02X_def hex_val_hex_char [OF h] hex_val_hex_char [OF l])
qed

lemma sscanf_hex_text: "sscanf_hex (length bs) (hex_text bs @ t) = bs"
  by (induction bs) (simp_all add: hex_text_Cons scan_2hhX_fmt)

lemma scan_block_hex_text:
  "length bs = m * k \<Longrightarrow> scan_block m k (hex_text bs @ t) = Some (bs, t)"
proof (induction m arbitrary: bs)
  case 0
  then show ?case by (simp add: hex_text_def)
next
  case (Suc m)
  define as where "as = take k bs"
  define cs where "cs = drop k bs"
  have bs: "bs = as @ cs" by (simp add: as_def cs_def)
  have la: "length as = k" using Suc.prems by (simp add: as_def)
  have lc: "length cs = m * k" using Suc.prems by (simp add: cs_def)
  have 1: "sscanf_hex k (hex_text bs @ t) = as"
    using sscanf_hex_text [of as "hex_text cs @ t"] by (simp add: bs hex_text_append la)
  have 2: "drop (2 * k) (hex_text bs @ t) = hex_text cs @ t"
    by (simp add: bs hex_text_append la)
  have "scan_block (Suc m) k (hex_text bs @ t)
      = (case scan_block m k (drop (2 * k) (hex_text bs @ t)) of
           None \<Rightarrow> None | Some (rest, t') \<Rightarrow> Some (as @ rest, t'))"
    by (simp only: scan_block.simps Let_def 1 la) simp
  also have "\<dots> = Some (as @ cs, t)"
    by (simp only: 2 Suc.IH [OF lc]) simp
  finally show ?case by (simp only: bs)
qed

paragraph \<open>Codewords\<close>

lemma length_fmt_d: "length (fmt_d w) \<le> 11"
proof -
  have b: "- (2 ^ 31) \<le> sint w" "sint w < 2 ^ 31"
    using sint_ge [of w] sint_lt [of w] by simp_all
  show ?thesis
  proof (cases "sint w < 0")
    case True
    have "nat (- sint w) < 10 ^ 10" using b by simp
    from length_dec_nat [OF this] True show ?thesis by (simp add: fmt_d_def)
  next
    case False
    have "nat (sint w) < 10 ^ 10" using b by simp
    from length_dec_nat [OF this] False show ?thesis by (simp add: fmt_d_def)
  qed
qed

lemma strtol32_fmt_d: "strtol32 (fmt_d w) = w"
proof (cases "sint w < 0")
  case True
  then have "(of_nat (nat (- sint w)) :: 32 word) = - w"
    by simp
  with True show ?thesis
    by (simp add: fmt_d_def strtol32_def dec_val_dec_nat)
next
  case False
  obtain d ds where ds: "dec_nat (nat (sint w)) = d # ds"
    using dec_nat_nonempty [of "nat (sint w)"] by (cases "dec_nat (nat (sint w))") auto
  have "is_digit d" using dec_nat_digits [of "nat (sint w)"] ds by simp
  then have d: "d \<noteq> CHR ''-''" using digit_not_consts by blast
  have "dec_val (d # ds) = nat (sint w)" using dec_val_dec_nat [of "nat (sint w)"] ds by simp
  moreover have "(of_nat (nat (sint w)) :: 32 word) = w" using False by simp
  ultimately show ?thesis
    using False d by (simp add: fmt_d_def strtol32_def ds)
qed

lemma scan_cprint_digits:
  "\<forall>c\<in>set ds. is_digit c \<Longrightarrow> length cpn + length ds < 12 \<Longrightarrow>
   scan_cprint (ds @ rest) cpn acc = scan_cprint rest (cpn @ ds) acc"
proof (induction ds arbitrary: cpn)
  case Nil
  show ?case by simp
next
  case (Cons d ds)
  from Cons.prems have d: "is_digit d" and l: "length cpn < 12" by simp_all
  from d have ne: "d \<noteq> CHR '' ''" "d \<noteq> CHR '')''" using digit_not_consts by blast+
  have "scan_cprint ((d # ds) @ rest) cpn acc = scan_cprint (ds @ rest) (cpn @ [d]) acc"
    using d l ne by simp
  also have "\<dots> = scan_cprint rest ((cpn @ [d]) @ ds) acc"
    by (rule Cons.IH) (use Cons.prems in simp_all)
  finally show ?case by simp
qed

lemma scan_cprint_fmt_d: "scan_cprint (fmt_d w @ rest) [] acc = scan_cprint rest (fmt_d w) acc"
proof (cases "sint w < 0")
  case True
  have l: "length (dec_nat (nat (- sint w))) < 11"
    using length_fmt_d [of w] True by (simp add: fmt_d_def)
  have "scan_cprint (fmt_d w @ rest) [] acc
      = scan_cprint (dec_nat (nat (- sint w)) @ rest) [CHR ''-''] acc"
    using True by (simp add: fmt_d_def)
  also have "\<dots> = scan_cprint rest ([CHR ''-''] @ dec_nat (nat (- sint w))) acc"
    by (rule scan_cprint_digits) (use l dec_nat_digits in auto)
  finally show ?thesis using True by (simp add: fmt_d_def)
next
  case False
  have l: "length (dec_nat (nat (sint w))) \<le> 11"
    using length_fmt_d [of w] False by (simp add: fmt_d_def)
  have "scan_cprint (dec_nat (nat (sint w)) @ rest) [] acc
      = scan_cprint rest ([] @ dec_nat (nat (sint w))) acc"
    by (rule scan_cprint_digits) (use l dec_nat_digits in auto)
  then show ?thesis using False by (simp add: fmt_d_def)
qed

lemma scan_cprint_word_space:
  "scan_cprint (fmt_d w @ CHR '' '' # rest) [] acc = scan_cprint rest [] (acc @ [w])"
  using length_fmt_d [of w] by (simp add: scan_cprint_fmt_d strtol32_fmt_d)

lemma scan_cprint_word_close:
  "scan_cprint (fmt_d w @ CHR '')'' # rest) [] acc = Some (acc @ [w])"
  using length_fmt_d [of w] by (simp add: scan_cprint_fmt_d strtol32_fmt_d)

lemma cp_text_single: "cp_text [w] = fmt_d w @ '')''"
  by (simp add: cp_text_def butlast_append)

lemma cp_text_Cons: "cs \<noteq> [] \<Longrightarrow> cp_text (w # cs) = fmt_d w @ CHR '' '' # cp_text cs"
  by (cases cs) (simp_all add: cp_text_def butlast_append)

lemma scan_cprint_cp_text: "cs \<noteq> [] \<Longrightarrow> scan_cprint (cp_text cs) [] acc = Some (acc @ cs)"
proof (induction cs arbitrary: acc)
  case Nil
  then show ?case by simp
next
  case (Cons w cs)
  show ?case
  proof (cases "cs = []")
    case True
    then show ?thesis by (simp add: cp_text_single scan_cprint_word_close)
  next
    case False
    with Cons.IH [OF False, of "acc @ [w]"] show ?thesis
      by (simp add: cp_text_Cons scan_cprint_word_space)
  qed
qed

paragraph \<open>Parsing the canonical text\<close>

lemma length_BASEFMT_ge: "7 \<le> length (BASEFMT a b c)"
proof -
  have "1 \<le> length (fmt_u w)" for w
    using dec_nat_nonempty [of "unat w"] by (cases "fmt_u w") (auto simp: fmt_u_def)
  from this [of a] this [of b] this [of c] show ?thesis
    by (simp add: BASEFMT_def)
qed

lemma length_cp_text_ge: "cs \<noteq> [] \<Longrightarrow> 2 \<le> length (cp_text cs)"
proof (cases cs)
  case Nil
  then show "cs \<noteq> [] \<Longrightarrow> ?thesis" by simp
next
  case (Cons w ws)
  have "fmt_d w \<noteq> []"
    using dec_nat_nonempty by (simp add: fmt_d_def)
  then have "1 \<le> length (fmt_d w)" by (cases "fmt_d w") auto
  then show ?thesis
    by (simp add: Cons cp_text_def butlast_append)
qed

lemma fprint_from_string_canonical:
  assumes "wf_fprint x" "cprint x \<noteq> []"
  shows "fprint_from_string (Some (canonical_text x)) = Some x"
proof -
  have lr: "length (r x) = 87 * 4" and ld: "length (dom_fp x) = 33 * 2"
    and lc: "length (cprint x) = unat (cprint_len x)"
    using assms(1) by (simp_all add: wf_fprint_def R_SIZE_def DOM_SIZE_def)
  define t1 where "t1 = hex_text (r x) @ '','' @ hex_text (dom_fp x) @ '','' @ cp_text (cprint x)"
  define t2 where "t2 = '','' @ hex_text (dom_fp x) @ '','' @ cp_text (cprint x)"
  define t3 where "t3 = hex_text (dom_fp x) @ '','' @ cp_text (cprint x)"
  define t4 where "t4 = '','' @ cp_text (cprint x)"
  have c: "canonical_text x = BASEFMT (songlen x) (bit_rate x) (num_errors x) @ t1"
    by (simp add: canonical_text_def t1_def)
  have len: "\<not> length (canonical_text x) < 11 + 2 * R_SIZE + 2 * DOM_SIZE"
    using length_BASEFMT_ge [of "songlen x" "bit_rate x" "num_errors x"]
      length_cp_text_ge [OF assms(2)] lr ld
    by (simp add: canonical_text_def R_SIZE_def DOM_SIZE_def)
  have 1: "sscanf_base (canonical_text x) = [songlen x, bit_rate x, num_errors x]"
    unfolding c by (rule sscanf_base_BASEFMT)
  have 2: "skip_commas 3 (canonical_text x) = Some t1"
    unfolding c by (rule skip_commas_BASEFMT)
  have 3: "scan_block (R_SIZE div 4) 4 t1 = Some (r x, t2)"
    using scan_block_hex_text [OF lr, of t2] by (simp add: t1_def t2_def R_SIZE_def)
  have 4: "scan_lit CHR '','' t2 = Some t3"
    by (simp add: scan_lit_def t2_def t3_def)
  have 5: "scan_block (DOM_SIZE div 2) 2 t3 = Some (dom_fp x, t4)"
    using scan_block_hex_text [OF ld, of t4] by (simp add: t3_def t4_def DOM_SIZE_def)
  have 6: "scan_lit CHR '','' t4 = Some (cp_text (cprint x))"
    by (simp add: scan_lit_def t4_def)
  have 7: "scan_cprint (cp_text (cprint x)) [] [] = Some (cprint x)"
    using scan_cprint_cp_text [OF assms(2), of "[]"] by simp
  have 8: "(of_nat (length (cprint x)) :: 64 word) = cprint_len x"
    by (simp add: lc)
  show ?thesis
    unfolding fprint_from_string_def option.case
    by (simp only: len if_False 1 list.case 2 option.case 3 prod.case 4 5 6 7 8) simp
qed

paragraph \<open>Writing into the zeroed buffer\<close>

lemma write_at_end:
  assumes "length s < k"
  shows "write_at (c @ replicate k NUL) (length c) (s @ [NUL])
           = (c @ s) @ replicate (k - length s) NUL"
proof -
  have "drop (length s + 1) (replicate k NUL) = replicate (k - length s - 1) NUL"
    by simp
  moreover have "NUL # replicate (k - length s - 1) NUL = replicate (k - length s) NUL"
    using assms by (cases "k - length s") simp_all
  ultimately show ?thesis
    by (simp add: write_at_def)
qed

lemma snprintf_at_end:
  assumes "length s < k" "length s < sz"
  shows "snprintf_at (c @ replicate k NUL) (length c) sz s
           = ((c @ s) @ replicate (k - length s) NUL, length s)"
  using assms write_at_end [OF assms(1), of c] by (simp add: snprintf_at_def)

lemma strncpy_at_char:
  assumes "1 < k"
  shows "strncpy_at (c @ replicate k NUL) (length c) [d] 2 = (c @ [d]) @ replicate (k - 1) NUL"
proof -
  have "take 2 ([d] @ replicate 2 NUL) = [d] @ [NUL]" by (simp add: numeral_2_eq_2)
  then show ?thesis
    using write_at_end [of "[d]" k c] assms by (simp add: strncpy_at_def)
qed

lemma fold_put_hex:
  "2 * length is < k \<Longrightarrow>
   fold (put_hex bs) is (c @ replicate k NUL, length c)
     = ((c @ concat (map (\<lambda>i. fmt_02X (bs ! i)) is)) @ replicate (k - 2 * length is) NUL,
        length c + 2 * length is)"
proof (induction "is" arbitrary: c k)
  case Nil
  show ?case by simp
next
  case (Cons i "is")
  have 1: "put_hex bs i (c @ replicate k NUL, length c)
      = ((c @ fmt_02X (bs ! i)) @ replicate (k - 2) NUL, length (c @ fmt_02X (bs ! i)))"
    using Cons.prems snprintf_at_end [of "fmt_02X (bs ! i)" k 3 c]
    by (simp add: put_hex_def)
  have 2: "2 * length is < k - 2" using Cons.prems by simp
  show ?case
    using Cons.IH [OF 2, of "c @ fmt_02X (bs ! i)"] Cons.prems
    by (simp only: fold_Cons comp_apply 1) simp
qed

lemma hex_text_nth: "concat (map (\<lambda>i. fmt_02X (bs ! i)) [0..<length bs]) = hex_text bs"
proof -
  have "map (\<lambda>i. fmt_02X (bs ! i)) [0..<length bs] = map fmt_02X (map ((!) bs) [0..<length bs])"
    by simp
  then show ?thesis by (simp only: map_nth hex_text_def)
qed

lemma length_spaced: "length (spaced cs) \<le> 12 * length cs"
proof (induction cs)
  case Nil
  show ?case by (simp add: spaced_def)
next
  case (Cons c cs)
  from length_fmt_d [of c] Cons show ?case by (simp add: spaced_def)
qed

lemma fold_put_cp:
  "12 * length js < k \<Longrightarrow>
   fold (put_cp cp) js (c @ replicate k NUL, length c)
     = ((c @ spaced (map ((!) cp) js)) @ replicate (k - length (spaced (map ((!) cp) js))) NUL,
        length c + length (spaced (map ((!) cp) js)))"
proof (induction js arbitrary: c k)
  case Nil
  show ?case by (simp add: spaced_def)
next
  case (Cons j js)
  define s where "s = fmt_d (cp ! j) @ '' ''"
  have ls: "length s \<le> 12" using length_fmt_d [of "cp ! j"] by (simp add: s_def)
  have 1: "put_cp cp j (c @ replicate k NUL, length c)
      = ((c @ s) @ replicate (k - length s) NUL, length (c @ s))"
    using Cons.prems ls snprintf_at_end [of s k 13 c]
    by (simp add: put_cp_def s_def)
  have 2: "12 * length js < k - length s" using Cons.prems ls by simp
  have sp: "spaced (map ((!) cp) (j # js)) = s @ spaced (map ((!) cp) js)"
    by (simp add: spaced_def s_def)
  show ?case
    using Cons.IH [OF 2, of "c @ s"]
    by (simp only: fold_Cons comp_apply 1 sp) (simp add: add.assoc)
qed

lemma spaced_nth: "spaced (map ((!) cp) [0..<length cp]) = spaced cp"
  by (simp only: map_nth)

lemma spaced_ends_with_space:
  assumes "cs \<noteq> []"
  shows "spaced cs = butlast (spaced cs) @ '' ''"
proof -
  have "spaced cs \<noteq> [] \<and> last (spaced cs) = CHR '' ''"
    using assms
  proof (induction cs)
    case Nil
    then show ?case by simp
  next
    case (Cons c cs)
    show ?case
    proof (cases "cs = []")
      case True
      then show ?thesis by (simp add: spaced_def)
    next
      case False
      with Cons.IH have "spaced cs \<noteq> []" "last (spaced cs) = CHR '' ''" by simp_all
      moreover have "spaced (c # cs) = (fmt_d c @ '' '') @ spaced cs" by (simp add: spaced_def)
      ultimately show ?thesis by simp
    qed
  qed
  then show ?thesis by (metis append_butlast_last_id)
qed

lemma cp_text_spaced: "cp_text cs = butlast (spaced cs) @ '')''"
  by (simp add: cp_text_def spaced_def)

paragraph \<open>The formatted text has no NUL\<close>

lemma fmt_02X_no_NUL: "NUL \<notin> set (fmt_02X b)"
proof -
  have "unat b div 16 < 16" using unsigned_less [of b, where 'a = nat] by simp
  then have "hex_char (unat b div 16) \<noteq> NUL" by (rule hex_char_not_NUL)
  moreover have "hex_char (unat b mod 16) \<noteq> NUL" by (rule hex_char_not_NUL) simp
  ultimately show ?thesis
    by (auto simp: fmt_02X_def)
qed

lemma hex_text_no_NUL: "NUL \<notin> set (hex_text bs)"
  using fmt_02X_no_NUL by (auto simp: hex_text_def)

lemma fmt_d_no_NUL: "NUL \<notin> set (fmt_d w)"
  using dec_nat_no_NUL by (auto simp: fmt_d_def NUL_def)

lemma spaced_no_NUL: "NUL \<notin> set (spaced cs)"
  using fmt_d_no_NUL by (auto simp: spaced_def NUL_def)

lemma cp_text_no_NUL: "NUL \<notin> set (cp_text cs)"
  using spaced_no_NUL [of cs] by (auto simp: cp_text_spaced NUL_def dest: in_set_butlastD)

lemma canonical_text_no_NUL: "NUL \<notin> set (canonical_text x)"
  using BASEFMT_no_NUL hex_text_no_NUL cp_text_no_NUL
  by (auto simp: canonical_text_def NUL_def)

lemma strncpy_at_start:
  assumes "length s \<le> m"
  shows "strncpy_at (replicate m NUL) 0 s m = s @ replicate (m - length s) NUL"
proof -
  have "take m (s @ replicate m NUL) = s @ replicate (m - length s) NUL"
    using assms by simp
  then show ?thesis
    using assms by (simp add: strncpy_at_def write_at_def)
qed

lemma strncpy_at_last:
  assumes "0 < k"
  shows "strncpy_at ((c @ [e]) @ replicate k NUL) (length c) [d] 2 = (c @ [d]) @ replicate k NUL"
proof -
  have "take 2 ([d] @ replicate 2 NUL) = [d, NUL]" by (simp add: numeral_2_eq_2)
  moreover have "drop (Suc 0) (replicate k NUL) = replicate (k - 1) NUL" by simp
  moreover have "NUL # replicate (k - 1) NUL = replicate k NUL"
    using assms by (cases k) simp_all
  ultimately show ?thesis
    by (simp add: strncpy_at_def write_at_def)
qed

lemma c_string_filled:
  assumes "NUL \<notin> set s" "length s < m" "0 < k"
  shows "c_string (take m (s @ replicate k NUL)) = s"
proof -
  obtain j where k: "k = Suc j" using assms(3) by (cases k) auto
  obtain i where m: "m - length s = Suc i" using assms(2) by (cases "m - length s") auto
  have "take m (s @ replicate k NUL) = s @ NUL # take i (replicate j NUL)"
    using assms(2) by (simp add: k m)
  then show ?thesis
    using c_string_append_NUL [OF assms(1)] by simp
qed

lemma fprint_to_string_canonical:
  assumes "wf_fprint x" "cprint x \<noteq> []"
    and "length (BASEFMT (songlen x) (bit_rate x) (num_errors x)) < BASE_SIZE"
  shows "fprint_to_string (Some x) = canonical_text x"
proof -
  define full where "full = BASEFMT (songlen x) (bit_rate x) (num_errors x)"
  define n where "n = unat (cprint_len x)"
  define str_sz where "str_sz = length full + (2 * R_SIZE + 1) + (2 * DOM_SIZE + 1) + 12 * n + 2"
  have lr: "length (r x) = R_SIZE" and ld: "length (dom_fp x) = DOM_SIZE"
    and lc: "length (cprint x) = n"
    using assms(1) by (simp_all add: wf_fprint_def n_def)
  have L: "length full < 24" using assms(3) by (simp add: full_def BASE_SIZE_def)
  have nf: "NUL \<notin> set full" unfolding full_def by (rule BASEFMT_no_NUL)
  define base_buf where "base_buf = ([] @ full) @ replicate (BASE_SIZE - length full) NUL"
  have sn: "snprintf_at (replicate BASE_SIZE NUL) 0 BASE_SIZE full = (base_buf, length full)"
    using snprintf_at_end [of full BASE_SIZE BASE_SIZE "[]"] L
    by (simp add: base_buf_def BASE_SIZE_def)
  have cb: "c_string base_buf = full"
  proof -
    obtain j where "BASE_SIZE - length full = Suc j"
      using L by (cases "BASE_SIZE - length full") (auto simp: BASE_SIZE_def)
    then show ?thesis
      using c_string_append_NUL [OF nf] by (simp add: base_buf_def)
  qed
  define k0 where "k0 = (2 * R_SIZE + 1) + (2 * DOM_SIZE + 1) + 12 * n + 2"
  define tmpstr0 where "tmpstr0 = strncpy_at (replicate str_sz NUL) 0 full str_sz"
  have le0: "length full \<le> str_sz" by (simp add: str_sz_def)
  have d0: "str_sz - length full = k0" by (simp add: str_sz_def k0_def)
  have t0: "tmpstr0 = full @ replicate k0 NUL"
    unfolding tmpstr0_def strncpy_at_start [OF le0] d0 ..
  define c1 where "c1 = full @ hex_text (r x)"
  define k1 where "k1 = k0 - 2 * R_SIZE"
  have f1: "fold (put_hex (r x)) [0..<R_SIZE] (tmpstr0, length full) = (c1 @ replicate k1 NUL, length c1)"
    using fold_put_hex [of "[0..<R_SIZE]" k0 "r x" full] hex_text_nth [of "r x"] lr
    by (simp add: t0 c1_def k1_def k0_def)
  define tmpstr2 where "tmpstr2 = strncpy_at (c1 @ replicate k1 NUL) (length c1) '','' 2"
  define c2 where "c2 = c1 @ '',''"
  define k2 where "k2 = k1 - 1"
  have t2: "tmpstr2 = c2 @ replicate k2 NUL"
    using strncpy_at_char [of k1 c1 "CHR '',''"]
    by (simp add: tmpstr2_def c2_def k2_def k1_def k0_def)
  have l2: "Suc (length c1) = length c2" by (simp add: c2_def)
  define c3 where "c3 = c2 @ hex_text (dom_fp x)"
  define k3 where "k3 = k2 - 2 * DOM_SIZE"
  have f3: "fold (put_hex (dom_fp x)) [0..<DOM_SIZE] (tmpstr2, length c1 + 1)
      = (c3 @ replicate k3 NUL, length c3)"
    using fold_put_hex [of "[0..<DOM_SIZE]" k2 "dom_fp x" c2] hex_text_nth [of "dom_fp x"] ld
    by (simp add: t2 l2 c3_def k3_def k2_def k1_def k0_def)
  define tmpstr4 where "tmpstr4 = strncpy_at (c3 @ replicate k3 NUL) (length c3) '','' 2"
  define c4 where "c4 = c3 @ '',''"
  define k4 where "k4 = k3 - 1"
  have k4: "k4 = 12 * n + 2" by (simp add: k4_def k3_def k2_def k1_def k0_def)
  have t4: "tmpstr4 = c4 @ replicate k4 NUL"
    using strncpy_at_char [of k3 c3 "CHR '',''"]
    by (simp add: tmpstr4_def c4_def k4_def k3_def k2_def k1_def k0_def)
  have l4: "Suc (length c3) = length c4" by (simp add: c4_def)
  define sp where "sp = spaced (cprint x)"
  define c5 where "c5 = c4 @ sp"
  define k5 where "k5 = k4 - length sp"
  have lsp: "length sp \<le> 12 * n" using length_spaced [of "cprint x"] by (simp add: sp_def lc)
  have f5: "fold (put_cp (cprint x)) [0..<n] (tmpstr4, length c3 + 1) = (c5 @ replicate k5 NUL, length c5)"
    using fold_put_cp [of "[0..<n]" k4 "cprint x" c4] spaced_nth [of "cprint x"]
    by (simp add: t4 l4 c5_def k5_def sp_def lc k4)
  define body where "body = c4 @ butlast sp"
  have c5: "c5 = body @ '' ''"
    using spaced_ends_with_space [OF assms(2)] by (simp add: c5_def body_def sp_def)
  have o6: "length c5 - 1 = length body" by (simp add: c5)
  have k5pos: "0 < k5" using lsp by (simp add: k5_def k4)
  define tmpstr6 where "tmpstr6 = strncpy_at (c5 @ replicate k5 NUL) (length c5 - 1) '')'' 2"
  have t6: "tmpstr6 = (body @ '')'') @ replicate k5 NUL"
    using strncpy_at_last [OF k5pos, of body "CHR '' ''" "CHR '')''"]
    by (simp add: tmpstr6_def o6) (simp add: c5)
  have can: "body @ '')'' = canonical_text x"
    by (simp add: body_def c4_def c3_def c2_def c1_def canonical_text_def full_def
        cp_text_spaced sp_def)
  have nb: "NUL \<notin> set (body @ '')'')"
    unfolding can by (rule canonical_text_no_NUL)
  have lb: "length (body @ '')'') < length c5 - 1 + 1 + 1"
    by (simp only: o6) simp
  have "c_string (take (length c5 - 1 + 1 + 1) tmpstr6) = body @ '')''"
    unfolding t6 by (rule c_string_filled [OF nb lb k5pos])
  moreover have "fprint_to_string (Some x) = c_string (take (length c5 - 1 + 1 + 1) tmpstr6)"
    by (simp only: fprint_to_string_def option.case Let_def full_def [symmetric]
        n_def [symmetric] sn prod.case cb str_sz_def [symmetric] tmpstr0_def [symmetric]
        f1 tmpstr2_def [symmetric] f3 tmpstr4_def [symmetric] f5 tmpstr6_def [symmetric])
  ultimately show ?thesis
    by (simp only: can)
qed

lemma fprint_roundtrip_short_header:
  assumes "valid_fprint x"
    and "length (BASEFMT (songlen x) (bit_rate x) (num_errors x)) < BASE_SIZE"
  shows "fprint_from_string (Some (fprint_to_string (Some x))) = Some x"
proof -
  have wf: "wf_fprint x" and l: "1 \<le> cprint_len x"
    using assms(1) by (simp_all add: valid_fprint_def)
  have "0 < unat (cprint_len x)" using l by (simp add: word_le_nat_alt)
  then have ne: "cprint x \<noteq> []" using wf by (auto simp: wf_fprint_def)
  show ?thesis
    by (simp only: fprint_to_string_canonical [OF wf ne assms(2)]
        fprint_from_string_canonical [OF wf ne])
qed

subsection \<open>Both sides of a split are non-empty\<close>

lemma assign_sel [simp]:
  "s_left (assign_left junk k fp st) = s_left st @ [k + 1]"
  "s_right (assign_left junk k fp st) = s_right st"
  "s_left (assign_right junk k fp st) = s_left st"
  "s_right (assign_right junk k fp st) = s_right st @ [k + 1]"
  "s_left (assign_left_u junk k fpu st) = s_left st @ [k + 1]"
  "s_right (assign_left_u junk k fpu st) = s_right st"
  "s_left (assign_right_u junk k fpu st) = s_left st"
  "s_right (assign_right_u junk k fpu st) = s_right st @ [k + 1]"
  by (simp_all add: assign_left_def assign_right_def assign_left_u_def assign_right_u_def)

lemma assign_step_grows:
  "length (s_left st) \<le> length (s_left (assign_step junk lf raw sl sr mn mx m st)) \<and>
   length (s_right st) \<le> length (s_right (assign_step junk lf raw sl sr mn mx m st))"
  by (simp add: assign_step_def Let_def)

lemma fold_assign_step_grows:
  "length (s_left st) \<le> length (s_left (fold (assign_step junk lf raw sl sr mn mx) ms st)) \<and>
   length (s_right st) \<le> length (s_right (fold (assign_step junk lf raw sl sr mn mx) ms st))"
proof (induction ms arbitrary: st)
  case Nil
  show ?case by simp
next
  case (Cons m ms)
  from assign_step_grows [of st junk lf raw sl sr mn mx m]
    Cons.IH [of "assign_step junk lf raw sl sr mn mx m st"]
  show ?case by simp
qed

lemma equal_step_grows:
  "length (s_left st) \<le> length (s_left (equal_step junk lf raw c k st)) \<and>
   length (s_right st) \<le> length (s_right (equal_step junk lf raw c k st))"
  by (simp add: equal_step_def)

lemma fold_equal_step_grows:
  "length (s_left st) \<le> length (s_left (fold (equal_step junk lf raw c) ks st)) \<and>
   length (s_right st) \<le> length (s_right (fold (equal_step junk lf raw c) ks st))"
proof (induction ks arbitrary: st)
  case Nil
  show ?case by simp
next
  case (Cons k ks)
  from equal_step_grows [of st junk lf raw c k]
    Cons.IH [of "equal_step junk lf raw c k st"]
  show ?case by simp
qed

lemma general_split_nonempty:
  "Suc 0 \<le> length (s_left (general_split qs junk lf raw ms sl sr mn mx))"
  "Suc 0 \<le> length (s_right (general_split qs junk lf raw ms sl sr mn mx))"
  unfolding general_split_def Let_def
  using fold_assign_step_grows
    [of "\<lparr> s_left = [sl + 1], s_right = [sr + 1], fp_ul = seed_key (raw ! sl) mn,
          fp_ur = seed_key (raw ! sr) mx \<rparr>" junk lf raw sl sr mn mx]
  by simp_all

lemma equal_split_nonempty:
  "Suc 0 \<le> length (s_left (equal_split junk lf raw mn mx))"
  "Suc 0 \<le> length (s_right (equal_split junk lf raw mn mx))"
  unfolding equal_split_def Let_def
  using fold_equal_step_grows
    [of "\<lparr> s_left = [1], s_right = [length raw], fp_ul = seed_key (raw ! 0) mn,
          fp_ur = seed_key (raw ! (length raw - 1)) mx \<rparr>" junk lf raw]
  by simp_all

lemma split_of_counts [simp]:
  "spl_nleft (split_of st) = length (s_left st)" "spl_nright (split_of st) = length (s_right st)"
  by (simp_all add: split_of_def)

lemma fprint_picksplit_sides_nonempty:
  assumes "fprint_picksplit qs junk leaf entv = Inr v"
  shows "1 \<le> spl_nleft v \<and> 1 \<le> spl_nright v"
proof -
  from assms obtain raw where d: "deserialize_all entv = Inr raw"
    by (auto simp: fprint_picksplit_def split: sum.splits)
  obtain sl sr mn mx eq where sc:
    "(if leaf then scan_leaves raw else scan_nodes raw) = (sl, sr, mn, mx, eq)"
    by (cases "if leaf then scan_leaves raw else scan_nodes raw") auto
  note gs = general_split_nonempty and es = equal_split_nonempty
  from assms show ?thesis
    unfolding fprint_picksplit_def d sum.case Let_def sc prod.case
    by (auto split: if_splits prod.splits simp: gs es)
qed

lemma deserialize_all_ok:
  "\<forall>e\<in>set entv. cprint_len e < 100000 \<Longrightarrow>
   \<exists>raw. deserialize_all entv = Inr raw \<and> length raw = length entv"
  by (induction entv) (auto simp: deserialize_fprint_def Let_def)

lemma fprint_picksplit_returns:
  assumes "2 \<le> length entv" "\<forall>e\<in>set entv. cprint_len e < 100000"
  shows "\<exists>v. fprint_picksplit qs junk leaf entv = Inr v"
proof -
  from deserialize_all_ok [OF assms(2)] obtain raw where
    d: "deserialize_all entv = Inr raw" "length raw = length entv" by blast
  obtain sl sr mn mx eq where sc:
    "(if leaf then scan_leaves raw else scan_nodes raw) = (sl, sr, mn, mx, eq)"
    by (cases "if leaf then scan_leaves raw else scan_nodes raw") auto
  show ?thesis
    unfolding fprint_picksplit_def d sum.case Let_def sc prod.case
    using assms(1) d(2) by (auto split: prod.splits)
qed

lemma assign_step_left_pulled:
  assumes "is_seed sl sr m \<or> songlen (raw ! ix1 m) - mn < mx - songlen (raw ! ix1 m)"
  shows "s_right (assign_step junk True raw sl sr mn mx m st) = s_right st \<and>
         length (s_left (assign_step junk True raw sl sr mn mx m st))
           = length (s_left st) + (if is_seed sl sr m then 0 else 1)"
  using assms by (auto simp: assign_step_def is_seed_def Let_def)

lemma fold_assign_step_left_pulled:
  assumes "\<forall>m\<in>set ms. is_seed sl sr m \<or> songlen (raw ! ix1 m) - mn < mx - songlen (raw ! ix1 m)"
  shows "s_right (fold (assign_step junk True raw sl sr mn mx) ms st) = s_right st \<and>
         length (s_left (fold (assign_step junk True raw sl sr mn mx) ms st))
           = length (s_left st) + length (filter (\<lambda>m. \<not> is_seed sl sr m) ms)"
  using assms
proof (induction ms arbitrary: st)
  case Nil
  show ?case by simp
next
  case (Cons m ms)
  from Cons.prems have m: "is_seed sl sr m \<or> songlen (raw ! ix1 m) - mn < mx - songlen (raw ! ix1 m)"
    and ms: "\<forall>m\<in>set ms. is_seed sl sr m \<or> songlen (raw ! ix1 m) - mn < mx - songlen (raw ! ix1 m)"
    by simp_all
  from assign_step_left_pulled [OF m, of junk st]
    Cons.IH [OF ms, of "assign_step junk True raw sl sr mn mx m st"]
  show ?case by simp
qed

lemma ix1_seed_matches:
  "map ix1 (seed_matches lf raw ms mn mx ul ur) = [0..<length raw]"
  by (simp add: seed_matches_def Let_def comp_def)

lemma perm_filter_length:
  assumes "mset xs = mset ys"
  shows "length (filter P xs) = length (filter P ys)"
proof -
  have "mset (filter P xs) = mset (filter P ys)"
    using assms by simp
  then show ?thesis by (metis size_mset)
qed

lemma insert_match_mset: "mset (insert_match m xs) = add_mset m (mset xs)"
  by (induction xs) simp_all

lemma sort_matches_mset: "mset (sort_matches ms) = mset ms"
  by (induction ms) (simp_all add: sort_matches_def insert_match_mset)

lemma deserialize_short:
  "deserialize_fprint (ex_fp sl b [c]) = Inr (Some (ex_fp sl b [c]))"
  by (simp add: deserialize_fprint_def ex_fp_def Let_def MAX_KEY_CP_LEN_def min_st_eq
      KEY_CP_END_IX1_def KEY_CP_END_IX2_def word_le_nat_alt word_less_nat_alt)

section \<open>Claims about the scores\<close>

text \<open>
  C10.  \<^verbatim>\<open>cmp_low_bit(0, 0)\<close> is 1: two all-zero codewords count as sharing the lowest
  set bit.  Hence in \<^verbatim>\<open>match_chromab\<close> every compared position at which both
  codewords are zero counts toward the score: for any two streams the 32-bit sum
  is the number of zero/zero positions plus the number of the other positions
  with the same lowest set bit, and the score is the sum divided by the greater
  length.  Two streams of the same length \<open>l\<close> (with \<open>0 < l < 2\<^sup>3\<^sup>2\<close>, the range of
  the sum) whose compared codewords are all zero score exactly 1.
\<close>

theorem cmp_low_bit_zero_scores:
  "cmp_low_bit 0 0 = 1 \<and>
   match_chromab cp1 l1 cp2 l2 =
     real ((zero_pairs cp1 cp2 (unat (min l1 l2)) + low_bit_pairs cp1 cp2 (unat (min l1 l2)))
            mod 2 ^ 32) / real (unat (max l1 l2)) \<and>
   (0 < l \<and> l < 2 ^ 32 \<and> (\<forall>k<unat l. cp1 ! k = 0 \<and> cp2 ! k = 0)
      \<longrightarrow> match_chromab cp1 l cp2 l = 1)"
proof (intro conjI impI)
  show "cmp_low_bit 0 0 = 1" by (simp add: cmp_low_bit_def)
next
  define m where "m = zero_pairs cp1 cp2 (unat (min l1 l2)) + low_bit_pairs cp1 cp2 (unat (min l1 l2))"
  have s: "low_bit_sum cp1 cp2 0 (unat (min l1 l2)) = of_nat m"
    unfolding m_def by (rule low_bit_sum_pairs)
  have u: "unat (of_nat m :: 32 word) = m mod 2 ^ 32"
    by (simp add: unat_of_nat)
  have z: "unat (min l1 l2) = 0 \<Longrightarrow> m = 0"
    by (simp add: m_def zero_pairs_def low_bit_pairs_def)
  have e: "(of_nat m :: 32 word) = 0 \<Longrightarrow> m mod 2 ^ 32 = 0"
    using u by simp
  show "match_chromab cp1 l1 cp2 l2 = real (m mod 2 ^ 32) / real (unat (max l1 l2))"
    unfolding match_chromab_sum Let_def s u
    using z e by auto
next
  assume "0 < l \<and> l < 2 ^ 32 \<and> (\<forall>k<unat l. cp1 ! k = 0 \<and> cp2 ! k = 0)"
  then show "match_chromab cp1 l cp2 l = 1"
    by (auto intro!: match_chromab_all simp: cmp_low_bit_def)
qed

text \<open>
  Two streams that differ at their first position and are both zero at the
  second score 1/2; the sentinel stream of one zero codeword, compared with
  itself, scores 1.
\<close>

theorem cmp_low_bit_zero_scores_witness:
  "cmp_low_bit 0 0 = 1 \<and> match_chromab [5, 0] 2 [6, 0] 2 = 1 / 2 \<and>
   match_chromab [0] 1 [0] 1 = 1"
proof -
  have u: "[0..<2] = [0, Suc 0]"
    by (simp add: numeral_2_eq_2)
  have z: "zero_pairs [5, 0] [6, 0] 2 = 1" "low_bit_pairs [5, 0] [6, 0] 2 = 0"
    by (simp_all add: zero_pairs_def low_bit_pairs_def u)
  have a: "match_chromab [5, 0] 2 [6, 0] 2 = 1 / 2"
    using cmp_low_bit_zero_scores [of "[5, 0]" 2 "[6, 0]" 2]
    by (simp add: z)
  have b: "cmp_low_bit 0 0 = 1 \<and> match_chromab [0] 1 [0] 1 = 1"
    using cmp_low_bit_zero_scores [of "[0]" 1 "[0]" 1 1] by simp
  from a b show ?thesis by simp
qed

text \<open>
  C2.  For every valid record \<open>a\<close>, \<^verbatim>\<open>match_cpfm(a, a)\<close> is at least 0.98, and the
  equality predicate \<^verbatim>\<open>FP_ISEQ\<close> holds of it.
\<close>

theorem match_cpfm_self:
  assumes "valid_fprint a"
  shows "match_cpfm (Some a) (Some a) \<ge> 0.98 \<and> FP_ISEQ (match_cpfm (Some a) (Some a))"
  unfolding match_cpfm_self_value [OF assms] by (simp add: FP_ISEQ_def FP_EXACT_CUTOFF_def)

theorem match_cpfm_self_witness:
  "valid_fprint (ex_fp 215 0x5A [7, - 3]) \<and>
   match_cpfm (Some (ex_fp 215 0x5A [7, - 3])) (Some (ex_fp 215 0x5A [7, - 3])) \<ge> 0.98 \<and>
   FP_ISEQ (match_cpfm (Some (ex_fp 215 0x5A [7, - 3])) (Some (ex_fp 215 0x5A [7, - 3])))"
proof -
  have v: "valid_fprint (ex_fp 215 0x5A [7, - 3])"
    by (simp add: valid_fprint_def wf_fprint_def ex_fp_def R_SIZE_def DOM_SIZE_def)
  from match_cpfm_self [OF v] v show ?thesis by simp
qed

text \<open>
  C1.  \<^verbatim>\<open>match_cpfm\<close> returns the value of the cubic combiner as it is; nothing
  cuts it back to the unit interval.  The all-zero sentinel record compared with
  itself has \<open>fm = 1\<close> and \<open>cp = 1\<close>, and the score is \<open>1.249293 / 1.2489\<close>,
  which is greater than 1.
\<close>

theorem match_cpfm_exceeds_one:
  "valid_fprint (ex_fp 0 0 [0]) \<and> match_cpfm (Some (ex_fp 0 0 [0])) (Some (ex_fp 0 0 [0])) > 1"
proof -
  have v: "valid_fprint (ex_fp 0 0 [0])"
    by (simp add: valid_fprint_def wf_fprint_def ex_fp_def R_SIZE_def DOM_SIZE_def)
  from match_cpfm_self_value [OF v] v show ?thesis by simp
qed

text \<open>
  C9.  \<^verbatim>\<open>match_chromat\<close> does not compute the two sums over the compared prefix.
  On two streams \<open>[1, 1]\<close> the remainder loop overwrites \<open>tdiff\<close> and the score
  is \<open>1 / 2\<close> where the sums give 1.  On streams of eight codewords the main
  loop stops after the first four, and the score is 1 where the sums give
  \<open>2 / 3\<close>.  On all-zero streams \<open>tcomm = 0\<close> and the code returns 1, since it
  tests \<open>tdiff = 0\<close> first.
\<close>

theorem match_chromat_not_tanimoto:
  "match_chromat [1, 1] 2 [1, 1] 2 = 1 / 2 \<and>
   match_chromat_spec [1, 1] 2 [1, 1] 2 = 1 \<and>
   match_chromat [1, 1, 1, 1, 3, 3, 3, 3] 8 [1, 1, 1, 1, 1, 1, 1, 1] 8 = 1 \<and>
   match_chromat_spec [1, 1, 1, 1, 3, 3, 3, 3] 8 [1, 1, 1, 1, 1, 1, 1, 1] 8 = 2 / 3 \<and>
   match_chromat [0] 1 [0] 1 = 1 \<and>
   match_chromat_spec [0] 1 [0] 1 = 0"
proof -
  have 1: "match_chromat [1, 1] 2 [1, 1] 2 = 1 / 2"
    by code_simp
  have 2: "match_chromat_spec [1, 1] 2 [1, 1] 2 = 1"
    by code_simp
  have 3: "match_chromat [1, 1, 1, 1, 3, 3, 3, 3] 8 [1, 1, 1, 1, 1, 1, 1, 1] 8 = 1"
    by code_simp
  have 4: "match_chromat_spec [1, 1, 1, 1, 3, 3, 3, 3] 8 [1, 1, 1, 1, 1, 1, 1, 1] 8 = 2 / 3"
    by code_simp
  have 5: "match_chromat [0] 1 [0] 1 = 1"
    by code_simp
  have 6: "match_chromat_spec [0] 1 [0] 1 = 0"
    by code_simp
  from 1 2 3 4 5 6 show ?thesis by (intro conjI)
qed

section \<open>Claims about the union keys\<close>

text \<open>
  C6.  For a well-formed key \<open>u\<close> and a well-formed record \<open>a\<close> with
  \<open>cprint_len a \<le> cprint_len u\<close>,
  after \<^verbatim>\<open>fprint_merge_one(u, a)\<close> the key covers the record: \<open>a.r & u.r = a.r\<close>,
  \<open>a.dom & u.dom = a.dom\<close> byte by byte, each of the first \<open>cprint_len a\<close> codewords
  of the key covers the record's, and \<open>u.min_songlen \<le> a.songlen \<le> u.max_songlen\<close>.
\<close>

theorem fprint_merge_one_covers:
  assumes "wf_union u" "wf_fprint a" "cprint_len a \<le> u_cprint_len u"
  shows "(let u' = fprint_merge_one u a in
          map2 (AND) (r a) (u_r u') = r a \<and>
          map2 (AND) (dom_fp a) (u_dom u') = dom_fp a \<and>
          (\<forall>k<unat (cprint_len a). cprint a ! k AND u_cprint u' ! k = cprint a ! k) \<and>
          min_songlen u' \<le> songlen a \<and> songlen a \<le> max_songlen u')"
proof -
  note lr = valid_lengths(1,2) [OF assms(1-3)]
    and ld = valid_lengths(3,4) [OF assms(1-3)]
    and lc = valid_lengths(5) [OF assms(1-3)]
  have 1: "map2 (AND) (r a) (merge_r (u_r u) (r a)) = r a"
    using lr by (simp add: merge_r_eq map2_and_or)
  have 2: "map2 (AND) (dom_fp a) (merge_dom (u_dom u) (dom_fp a)) = dom_fp a"
    using ld by (simp add: merge_dom_eq map2_and_or)
  have 3: "\<forall>k<unat (cprint_len a).
      cprint a ! k AND merge_cprint (u_cprint u) (cprint a) (unat (cprint_len a)) ! k = cprint a ! k"
    using lc by (simp add: merge_cprint_nth word_and_or_absorb)
  have 4: "(if min_songlen u > 0 then min_u32 (min_songlen u) (songlen a) else songlen a) \<le> songlen a"
    by (simp add: min_u32_eq)
  have 5: "songlen a \<le> max_u32 (max_songlen u) (songlen a)"
    by (simp add: max_u32_eq)
  show ?thesis
    unfolding Let_def fprint_merge_one_def using 1 2 3 4 5 by simp
qed

theorem fprint_merge_one_covers_witness:
  "map2 (AND) (r (ex_fp 215 0x5A [7, - 3]))
       (u_r (fprint_merge_one (ex_union 200 260 0x0F [8, 1, 2]) (ex_fp 215 0x5A [7, - 3])))
     = r (ex_fp 215 0x5A [7, - 3]) \<and>
   map2 (AND) (dom_fp (ex_fp 215 0x5A [7, - 3]))
       (u_dom (fprint_merge_one (ex_union 200 260 0x0F [8, 1, 2]) (ex_fp 215 0x5A [7, - 3])))
     = dom_fp (ex_fp 215 0x5A [7, - 3]) \<and>
   7 AND u_cprint (fprint_merge_one (ex_union 200 260 0x0F [8, 1, 2]) (ex_fp 215 0x5A [7, - 3])) ! 0 = 7 \<and>
   (- 3) AND u_cprint (fprint_merge_one (ex_union 200 260 0x0F [8, 1, 2]) (ex_fp 215 0x5A [7, - 3])) ! 1 = - 3 \<and>
   min_songlen (fprint_merge_one (ex_union 200 260 0x0F [8, 1, 2]) (ex_fp 215 0x5A [7, - 3])) \<le> 215 \<and>
   215 \<le> max_songlen (fprint_merge_one (ex_union 200 260 0x0F [8, 1, 2]) (ex_fp 215 0x5A [7, - 3]))"
proof -
  have u: "wf_union (ex_union 200 260 0x0F [8, 1, 2])"
    by (simp add: wf_union_def R_SIZE_def DOM_SIZE_def)
  have a: "wf_fprint (ex_fp 215 0x5A [7, - 3])"
    by (simp add: wf_fprint_def R_SIZE_def DOM_SIZE_def)
  have l: "cprint_len (ex_fp 215 0x5A [7, - 3]) \<le> u_cprint_len (ex_union 200 260 0x0F [8, 1, 2])"
    by simp
  have n: "unat (cprint_len (ex_fp 215 0x5A [7, - 3])) = 2" by simp
  have s: "songlen (ex_fp 215 0x5A [7, - 3]) = 215"
      "cprint (ex_fp 215 0x5A [7, - 3]) ! 0 = 7" "cprint (ex_fp 215 0x5A [7, - 3]) ! 1 = - 3"
    by simp_all
  from fprint_merge_one_covers [OF u a l] show ?thesis
    unfolding Let_def n s by (simp add: less_2_cases_iff)
qed

text \<open>
  C7, as stated: merging a record into a key that covers it (bits and song
  length envelope) leaves the key unchanged.  This fails when the key's
  \<open>min_songlen\<close> is 0, which \<^verbatim>\<open>fprint_merge_one\<close> reads as "not yet set": the lower
  bound is then overwritten with the record's song length.
\<close>

theorem fprint_merge_one_not_idempotent:
  "valid_union (ex_union 0 10 0xFF [7]) \<and> valid_fprint (ex_fp 5 0x0F [5]) \<and>
   cprint_len (ex_fp 5 0x0F [5]) \<le> u_cprint_len (ex_union 0 10 0xFF [7]) \<and>
   map2 (AND) (r (ex_fp 5 0x0F [5])) (u_r (ex_union 0 10 0xFF [7])) = r (ex_fp 5 0x0F [5]) \<and>
   map2 (AND) (dom_fp (ex_fp 5 0x0F [5])) (u_dom (ex_union 0 10 0xFF [7])) = dom_fp (ex_fp 5 0x0F [5]) \<and>
   unat (cprint_len (ex_fp 5 0x0F [5])) = 1 \<and>
   cprint (ex_fp 5 0x0F [5]) ! 0 AND u_cprint (ex_union 0 10 0xFF [7]) ! 0 = cprint (ex_fp 5 0x0F [5]) ! 0 \<and>
   min_songlen (ex_union 0 10 0xFF [7]) \<le> songlen (ex_fp 5 0x0F [5]) \<and>
   songlen (ex_fp 5 0x0F [5]) \<le> max_songlen (ex_union 0 10 0xFF [7]) \<and>
   min_songlen (fprint_merge_one (ex_union 0 10 0xFF [7]) (ex_fp 5 0x0F [5])) = 5 \<and>
   fprint_merge_one (ex_union 0 10 0xFF [7]) (ex_fp 5 0x0F [5]) \<noteq> ex_union 0 10 0xFF [7]"
proof -
  have m: "min_songlen (fprint_merge_one (ex_union 0 10 0xFF [7]) (ex_fp 5 0x0F [5])) = 5"
    by (simp add: fprint_merge_one_def)
  have m0: "min_songlen (ex_union 0 10 0xFF [7]) = 0"
    by simp
  have ne: "fprint_merge_one (ex_union 0 10 0xFF [7]) (ex_fp 5 0x0F [5]) \<noteq> ex_union 0 10 0xFF [7]"
  proof
    assume "fprint_merge_one (ex_union 0 10 0xFF [7]) (ex_fp 5 0x0F [5]) = ex_union 0 10 0xFF [7]"
    then have "min_songlen (fprint_merge_one (ex_union 0 10 0xFF [7]) (ex_fp 5 0x0F [5])) = 0"
      by (simp only: m0)
    with m show False by simp
  qed
  have vu: "valid_union (ex_union 0 10 0xFF [7])"
    by (simp add: valid_union_def wf_union_def R_SIZE_def DOM_SIZE_def)
  have va: "valid_fprint (ex_fp 5 0x0F [5])"
    by (simp add: valid_fprint_def wf_fprint_def R_SIZE_def DOM_SIZE_def)
  have c1: "map2 (AND) (r (ex_fp 5 0x0F [5])) (u_r (ex_union 0 10 0xFF [7])) = r (ex_fp 5 0x0F [5])"
    by (simp add: zip_replicate)
  have c2: "map2 (AND) (dom_fp (ex_fp 5 0x0F [5])) (u_dom (ex_union 0 10 0xFF [7])) = dom_fp (ex_fp 5 0x0F [5])"
    by (simp add: zip_replicate)
  have c3: "unat (cprint_len (ex_fp 5 0x0F [5])) = 1"
    "cprint (ex_fp 5 0x0F [5]) ! 0 AND u_cprint (ex_union 0 10 0xFF [7]) ! 0 = cprint (ex_fp 5 0x0F [5]) ! 0"
    by simp_all
  have c4: "cprint_len (ex_fp 5 0x0F [5]) \<le> u_cprint_len (ex_union 0 10 0xFF [7])"
       "min_songlen (ex_union 0 10 0xFF [7]) \<le> songlen (ex_fp 5 0x0F [5])"
       "songlen (ex_fp 5 0x0F [5]) \<le> max_songlen (ex_union 0 10 0xFF [7])"
    by simp_all
  from vu va c1 c2 c3 c4 m ne show ?thesis by (intro conjI)
qed

text \<open>
  C7, amended: merging a covered record leaves every field of the key unchanged
  provided the key's \<open>min_songlen\<close> is not 0 (or the record's song length is 0).
\<close>

theorem fprint_merge_one_idempotent:
  assumes "wf_union u" "wf_fprint a" "cprint_len a \<le> u_cprint_len u"
    and "map2 (AND) (r a) (u_r u) = r a"
    and "map2 (AND) (dom_fp a) (u_dom u) = dom_fp a"
    and "\<forall>k<unat (cprint_len a). cprint a ! k AND u_cprint u ! k = cprint a ! k"
    and "min_songlen u \<le> songlen a" "songlen a \<le> max_songlen u"
    and "0 < min_songlen u \<or> songlen a = 0"
  shows "fprint_merge_one u a = u"
proof -
  note lr = valid_lengths(1,2) [OF assms(1-3)]
    and ld = valid_lengths(3,4) [OF assms(1-3)]
    and lc = valid_lengths(5) [OF assms(1-3)]
  have 1: "merge_r (u_r u) (r a) = u_r u"
    using lr assms(4) by (simp add: merge_r_eq map2_or_covered)
  have 2: "merge_dom (u_dom u) (dom_fp a) = u_dom u"
    using ld assms(5) by (simp add: merge_dom_eq map2_or_covered)
  have 3: "merge_cprint (u_cprint u) (cprint a) (unat (cprint_len a)) = u_cprint u"
    using lc assms(6) by (rule merge_cprint_covered)
  have 4: "(if min_songlen u > 0 then min_u32 (min_songlen u) (songlen a) else songlen a) = min_songlen u"
    using assms(7,9) by (auto simp: min_u32_eq min_def word_gt_0)
  have 5: "max_u32 (max_songlen u) (songlen a) = max_songlen u"
    using assms(8) by (simp add: max_u32_eq max_def)
  show ?thesis
    unfolding fprint_merge_one_def 1 2 3 4 5 by simp
qed

theorem fprint_merge_one_idempotent_witness:
  "fprint_merge_one (ex_union 200 260 0xFF [15, 1, 2]) (ex_fp 215 0x0F [7])
     = ex_union 200 260 0xFF [15, 1, 2]"
proof -
  have vu: "wf_union (ex_union 200 260 0xFF [15, 1, 2])"
    by (simp add: wf_union_def R_SIZE_def DOM_SIZE_def)
  have va: "wf_fprint (ex_fp 215 0x0F [7])"
    by (simp add: wf_fprint_def R_SIZE_def DOM_SIZE_def)
  have c1: "map2 (AND) (r (ex_fp 215 0x0F [7])) (u_r (ex_union 200 260 0xFF [15, 1, 2]))
      = r (ex_fp 215 0x0F [7])"
    by (simp add: zip_replicate)
  have c2: "map2 (AND) (dom_fp (ex_fp 215 0x0F [7])) (u_dom (ex_union 200 260 0xFF [15, 1, 2]))
      = dom_fp (ex_fp 215 0x0F [7])"
    by (simp add: zip_replicate)
  have c3: "\<forall>k<unat (cprint_len (ex_fp 215 0x0F [7])).
       cprint (ex_fp 215 0x0F [7]) ! k AND u_cprint (ex_union 200 260 0xFF [15, 1, 2]) ! k
         = cprint (ex_fp 215 0x0F [7]) ! k"
    by simp
  have c4: "cprint_len (ex_fp 215 0x0F [7]) \<le> u_cprint_len (ex_union 200 260 0xFF [15, 1, 2])"
       "min_songlen (ex_union 200 260 0xFF [15, 1, 2]) \<le> songlen (ex_fp 215 0x0F [7])"
       "songlen (ex_fp 215 0x0F [7]) \<le> max_songlen (ex_union 200 260 0xFF [15, 1, 2])"
       "0 < min_songlen (ex_union 200 260 0xFF [15, 1, 2]) \<or> songlen (ex_fp 215 0x0F [7]) = 0"
    by simp_all
  show ?thesis
    by (rule fprint_merge_one_idempotent [OF vu va c4(1) c1 c2 c3 c4(2,3,4)])
qed




section \<open>Claims about the text codec\<close>

text \<open>
  C3.  The text form does not always parse back.  \<^verbatim>\<open>fprint_to_string\<close> formats the
  header into a 24-byte array, but three 32-bit fields need up to 34 characters.
  When the header is longer than 23 characters the output buffer keeps a NUL
  after the 23rd character (\<open>fprint_to_string_long_header\<close>), the returned string
  is the cut header alone, and \<^verbatim>\<open>fprint_from_string\<close> rejects it as too short.
  Here \<open>songlen\<close> and \<open>bit_rate\<close> are both \<open>1000000000\<close>.  A valid record
  whose header has at most 23 characters does parse back to itself
  (\<open>fprint_roundtrip_short_header\<close>), negative codewords included.
\<close>

theorem fprint_roundtrip_fails_wide_header:
  "valid_fprint (ex_fp 1000000000 0x5A [7, - 3] \<lparr> bit_rate := 1000000000 \<rparr>) \<and>
   fprint_to_string (Some (ex_fp 1000000000 0x5A [7, - 3] \<lparr> bit_rate := 1000000000 \<rparr>))
     = ''(1000000000,1000000000,'' \<and>
   fprint_from_string
     (Some (fprint_to_string (Some (ex_fp 1000000000 0x5A [7, - 3] \<lparr> bit_rate := 1000000000 \<rparr>))))
     = None"
proof -
  have v: "valid_fprint (ex_fp 1000000000 0x5A [7, - 3] \<lparr> bit_rate := 1000000000 \<rparr>)"
    by (simp add: valid_fprint_def wf_fprint_def ex_fp_def R_SIZE_def DOM_SIZE_def)
  have b: "BASEFMT 1000000000 1000000000 0 = ''(1000000000,1000000000,0,''"
    by (simp add: BASEFMT_def fmt_u_def dec_nat_digit dec_nat_step digit_char_values)
  have "BASE_SIZE \<le> length (BASEFMT (songlen (ex_fp 1000000000 0x5A [7, - 3] \<lparr> bit_rate := 1000000000 \<rparr>))
      (bit_rate (ex_fp 1000000000 0x5A [7, - 3] \<lparr> bit_rate := 1000000000 \<rparr>))
      (num_errors (ex_fp 1000000000 0x5A [7, - 3] \<lparr> bit_rate := 1000000000 \<rparr>)))"
    by (simp add: b BASE_SIZE_def)
  from fprint_to_string_long_header [OF this]
  have s: "fprint_to_string (Some (ex_fp 1000000000 0x5A [7, - 3] \<lparr> bit_rate := 1000000000 \<rparr>))
     = ''(1000000000,1000000000,''"
    by (simp add: b BASE_SIZE_def)
  have p: "fprint_from_string (Some ''(1000000000,1000000000,'') = None"
    by (simp add: fprint_from_string_def R_SIZE_def DOM_SIZE_def)
  from v s p show ?thesis by simp
qed

section \<open>Claims about the index operators\<close>

text \<open>
  C4.  \<^verbatim>\<open>fprint_same\<close> stores \<^verbatim>\<open>(bool) memcmp(...)\<close>: for two keys of the same
  \<open>cprint_len\<close> it answers true exactly when the images differ
  (\<open>fprint_same_iff\<close>).  A key compared with itself is reported as not the same.
\<close>

theorem fprint_same_inverted:
  "fprint_same pad k pad k = False"
  by (simp add: fprint_same_def memcmp_refl)

text \<open>
  C8.  Every split that \<^verbatim>\<open>fprint_picksplit\<close> returns has at least one entry on each
  side (\<open>fprint_picksplit_sides_nonempty\<close>), and it returns a split for two or
  more entries with \<open>cprint_len < 100000\<close> (\<open>fprint_picksplit_returns\<close>).  But four
  or more entries do not always leave two on each side: the seeds are the
  entries with the smallest and the largest song length, and every other entry
  that is closer to the smallest goes left.  For leaves with song lengths 1,
  100, 2 and 2 the split is three to one, in whatever order \<^verbatim>\<open>qsort\<close> leaves the
  matches.
\<close>

theorem picksplit_unbalanced:
  assumes "\<And>ms. mset (qs ms) = mset ms"
  shows "split_counts
           (fprint_picksplit qs junk True
              [ex_fp 1 0x5A [7], ex_fp 100 0x5A [7], ex_fp 2 0x5A [7], ex_fp 2 0x5A [7]])
         = Some (3, 1)"
proof -
  define raw where "raw = [ex_fp 1 0x5A [7], ex_fp 100 0x5A [7], ex_fp 2 0x5A [7], ex_fp 2 0x5A [7]]"
  have d: "deserialize_all raw = Inr raw"
    by (simp add: raw_def deserialize_short)
  have u: "[Suc 0..<4] = [1, 2, 3]" "[0..<4] = [0, 1, 2, 3]" by code_simp+
  have len: "length raw = 4" by (simp add: raw_def)
  have sc: "scan_leaves raw = (0, 1, 1, 100, False)"
    by (simp add: scan_leaves_def len u raw_def word_less_nat_alt)
  define blank where "blank = replicate ((4 * (4 - 1)) div 2) \<lparr> ix1 = 0, ix2 = 0, songlen_diff = 0, val = 0 :: real \<rparr>"
  define ul where "ul = seed_key (raw ! 0) 1"
  define ur where "ur = seed_key (raw ! 1) 100"
  define ms where "ms = seed_matches True raw blank 1 100 ul ur"
  define st0 where "st0 = \<lparr> s_left = [0 + 1], s_right = [1 + 1], fp_ul = ul, fp_ur = ur \<rparr>"
  have ix: "map ix1 ms = [0, 1, 2, 3]"
    by (simp add: ms_def ix1_seed_matches len u)
  have perm: "mset (qs ms) = mset ms" by (rule assms)
  have set_eq: "set (qs ms) = set ms" using perm by (rule mset_eq_setD)
  have pulled: "\<forall>m\<in>set (qs ms). is_seed 0 1 m \<or> songlen (raw ! ix1 m) - 1 < 100 - songlen (raw ! ix1 m)"
  proof
    fix m assume "m \<in> set (qs ms)"
    then have "m \<in> set ms" using set_eq by simp
    then have "ix1 m \<in> set (map ix1 ms)" by simp
    then have "ix1 m = 0 \<or> ix1 m = 1 \<or> ix1 m = 2 \<or> ix1 m = 3" by (simp add: ix)
    then show "is_seed 0 1 m \<or> songlen (raw ! ix1 m) - 1 < 100 - songlen (raw ! ix1 m)"
      by (auto simp: is_seed_def raw_def)
  qed
  have "length (filter (\<lambda>m. \<not> is_seed 0 1 m) (qs ms)) = length (filter (\<lambda>m. \<not> is_seed 0 1 m) ms)"
    using perm by (rule perm_filter_length)
  also have "\<dots> = length (filter (\<lambda>k. k \<noteq> 0 \<and> k \<noteq> 1) (map ix1 ms))"
    by (simp add: filter_map comp_def is_seed_def)
  also have "\<dots> = 2" by (simp add: ix)
  finally have cnt: "length (filter (\<lambda>m. \<not> is_seed 0 1 m) (qs ms)) = 2" .
  from fold_assign_step_left_pulled [OF pulled, of junk st0] cnt
  have res: "s_right (fold (assign_step junk True raw 0 1 1 100) (qs ms) st0) = [2]"
       "length (s_left (fold (assign_step junk True raw 0 1 1 100) (qs ms) st0)) = 3"
    by (simp_all add: st0_def)
  have gs: "general_split qs junk True raw blank 0 1 1 100
      = fold (assign_step junk True raw 0 1 1 100) (qs ms) st0"
    by (simp add: general_split_def Let_def ms_def st0_def ul_def ur_def)
  have "fprint_picksplit qs junk True raw
      = Inr (split_of (general_split qs junk True raw blank 0 1 1 100))"
    by (simp add: fprint_picksplit_def d sc len blank_def)
  then have fp: "fprint_picksplit qs junk True raw
      = Inr (split_of (fold (assign_step junk True raw 0 1 1 100) (qs ms) st0))"
    by (simp only: gs)
  have "split_counts (fprint_picksplit qs junk True raw)
      = Some (length (s_left (fold (assign_step junk True raw 0 1 1 100) (qs ms) st0)),
              length (s_right (fold (assign_step junk True raw 0 1 1 100) (qs ms) st0)))"
    by (simp only: fp split_counts_def sum.case split_of_counts)
  also have "\<dots> = Some (3, 1)"
    by (simp only: res) simp
  finally show ?thesis
    by (simp only: raw_def)
qed

theorem picksplit_unbalanced_witness:
  "split_counts
     (fprint_picksplit sort_matches (\<lambda>l. 0) True
        [ex_fp 1 0x5A [7], ex_fp 100 0x5A [7], ex_fp 2 0x5A [7], ex_fp 2 0x5A [7]])
   = Some (3, 1)"
  by (rule picksplit_unbalanced) (rule sort_matches_mset)

end
